theory Spec2Isabelle
  imports Main
begin

section \<open>Python text primitives\<close>

text \<open>
  A Python \<open>str\<close> is a sequence of Unicode code points. The model covers the texts whose
  code points are below 256: a \<^typ>\<open>char\<close> is one code point and \<^typ>\<open>string\<close> is a
  \<open>str\<close>. On that range the predicates below are the tables of CPython 3.11 for
  \<open>str.isalnum\<close>, \<open>str.isspace\<close>, \<open>str.lower\<close> and \<open>str.upper\<close>. \<open>upper\<close> leaves the
  range on three code points (181, 223, 255), so it returns code points as numbers.
\<close>

definition py_isalnum :: "char \<Rightarrow> bool" where
  "py_isalnum c =
     (let n = (of_char c :: nat) in
        (48 \<le> n \<and> n \<le> 57) \<or> (65 \<le> n \<and> n \<le> 90) \<or> (97 \<le> n \<and> n \<le> 122)
        \<or> n = 170 \<or> n = 178 \<or> n = 179 \<or> n = 181 \<or> n = 185 \<or> n = 186
        \<or> (188 \<le> n \<and> n \<le> 190) \<or> (192 \<le> n \<and> n \<le> 214)
        \<or> (216 \<le> n \<and> n \<le> 246) \<or> (248 \<le> n \<and> n \<le> 255))"

definition py_isspace :: "char \<Rightarrow> bool" where
  "py_isspace c =
     (let n = (of_char c :: nat) in
        (9 \<le> n \<and> n \<le> 13) \<or> (28 \<le> n \<and> n \<le> 32) \<or> n = 133 \<or> n = 160)"

definition py_lower :: "char \<Rightarrow> char" where
  "py_lower c =
     (let n = (of_char c :: nat) in
        if (65 \<le> n \<and> n \<le> 90) \<or> (192 \<le> n \<and> n \<le> 214) \<or> (216 \<le> n \<and> n \<le> 222)
        then char_of (n + 32) else c)"

definition py_upper :: "char \<Rightarrow> nat list" where
  "py_upper c =
     (let n = (of_char c :: nat) in
        if (97 \<le> n \<and> n \<le> 122) \<or> (224 \<le> n \<and> n \<le> 246) \<or> (248 \<le> n \<and> n \<le> 254)
        then [n - 32]
        else if n = 181 then [924]
        else if n = 223 then [83, 83]
        else if n = 255 then [376]
        else [n])"

text \<open>\<open>s.upper()\<close>, as code points.\<close>

definition upper :: "string \<Rightarrow> nat list" where
  "upper s = concat (map py_upper s)"

text \<open>\<open>s.strip()\<close>: leading and trailing whitespace removed.\<close>

definition strip :: "string \<Rightarrow> string" where
  "strip s = rev (dropWhile py_isspace (rev (dropWhile py_isspace s)))"

text \<open>
  A \<open>dict\<close> built by assigning the pairs in order: a later pair with the same key
  overwrites the earlier one.
\<close>

definition dict_of :: "('k \<times> 'v) list \<Rightarrow> ('k \<rightharpoonup> 'v)" where
  "dict_of kvs = fold (\<lambda>(k, v) m. m(k \<mapsto> v)) kvs Map.empty"

section \<open>The csv module\<close>

text \<open>
  \<open>io.StringIO(csv_file_content)\<close> is created with the default \<open>newline='\n'\<close>: the text is
  stored untranslated and iterating the stream yields the lines, each ending after a
  line feed and keeping it; a last line without line feed is yielded as it is.
\<close>

fun readlines :: "string \<Rightarrow> string \<Rightarrow> string list" where
  "readlines acc [] = (if acc = [] then [] else [acc])"
| "readlines acc (c # cs) =
     (if c = CHR 0x0A then (acc @ [c]) # readlines [] cs else readlines (acc @ [c]) cs)"

definition StringIO_lines :: "string \<Rightarrow> string list" where
  "StringIO_lines content = readlines [] content"

text \<open>
  The dialect attributes the reader consults. Both \<open>csv.excel\<close> and the class built by
  \<open>csv.Sniffer.sniff\<close> have \<open>quoting = QUOTE_MINIMAL\<close>, no \<open>escapechar\<close> and
  \<open>strict = False\<close>; the sniffer sets the four attributes below.
\<close>

record dialect =
  delimiter :: char
  quotechar :: char
  doublequote :: bool
  skipinitialspace :: bool

definition csv_excel :: dialect where
  "csv_excel =
     \<lparr>delimiter = CHR '','', quotechar = CHR 0x22, doublequote = True, skipinitialspace = False\<rparr>"

text \<open>
  The reader of \<open>_csv.c\<close> (CPython 3.11). With no escape character the states
  \<open>ESCAPED_CHAR\<close>, \<open>AFTER_ESCAPED_CRNL\<close> and \<open>ESCAPE_IN_QUOTED_FIELD\<close> are never entered.
\<close>

datatype parser_state =
  START_RECORD | START_FIELD | IN_FIELD | IN_QUOTED_FIELD | QUOTE_IN_QUOTED_FIELD | EAT_CRNL

record reader =
  state :: parser_state
  fieldlist :: "string list"
  field :: string

datatype csv_error = FieldLimit | NewlineInUnquotedField

definition field_limit :: nat where
  "field_limit = 131072"

definition parse_reset :: reader where
  "parse_reset = \<lparr>state = START_RECORD, fieldlist = [], field = []\<rparr>"

definition parse_save_field :: "reader \<Rightarrow> reader" where
  "parse_save_field r = r\<lparr>fieldlist := fieldlist r @ [field r], field := []\<rparr>"

definition parse_add_char :: "reader \<Rightarrow> char \<Rightarrow> csv_error + reader" where
  "parse_add_char r c =
     (if field_limit \<le> length (field r) then Inl FieldLimit
      else Inr (r\<lparr>field := field r @ [c]\<rparr>))"

definition is_newline :: "char \<Rightarrow> bool" where
  "is_newline c = (c = CHR 0x0A \<or> c = CHR 0x0D)"

text \<open>
  One step of \<open>parse_process_char\<close>; the character \<open>None\<close> is the end-of-line marker
  \<open>EOL\<close> the reader feeds after the last character of each line. \<open>START_RECORD\<close> falls
  through into \<open>START_FIELD\<close> on a normal character.
\<close>

definition start_field :: "dialect \<Rightarrow> reader \<Rightarrow> char option \<Rightarrow> csv_error + reader" where
  "start_field d r co =
     (case co of
        None \<Rightarrow> Inr ((parse_save_field r)\<lparr>state := START_RECORD\<rparr>)
      | Some c \<Rightarrow>
          if is_newline c then Inr ((parse_save_field r)\<lparr>state := EAT_CRNL\<rparr>)
          else if c = quotechar d then Inr (r\<lparr>state := IN_QUOTED_FIELD\<rparr>)
          else if c = CHR '' '' \<and> skipinitialspace d then Inr r
          else if c = delimiter d then Inr (parse_save_field r)
          else map_sum id (\<lambda>r'. r'\<lparr>state := IN_FIELD\<rparr>) (parse_add_char r c))"

definition parse_process_char :: "dialect \<Rightarrow> reader \<Rightarrow> char option \<Rightarrow> csv_error + reader" where
  "parse_process_char d r co =
     (case state r of
        START_RECORD \<Rightarrow>
          (case co of
             None \<Rightarrow> Inr r
           | Some c \<Rightarrow>
               if is_newline c then Inr (r\<lparr>state := EAT_CRNL\<rparr>)
               else start_field d (r\<lparr>state := START_FIELD\<rparr>) co)
      | START_FIELD \<Rightarrow> start_field d r co
      | IN_FIELD \<Rightarrow>
          (case co of
             None \<Rightarrow> Inr ((parse_save_field r)\<lparr>state := START_RECORD\<rparr>)
           | Some c \<Rightarrow>
               if is_newline c then Inr ((parse_save_field r)\<lparr>state := EAT_CRNL\<rparr>)
               else if c = delimiter d then Inr ((parse_save_field r)\<lparr>state := START_FIELD\<rparr>)
               else parse_add_char r c)
      | IN_QUOTED_FIELD \<Rightarrow>
          (case co of
             None \<Rightarrow> Inr r
           | Some c \<Rightarrow>
               if c = quotechar d
               then Inr (r\<lparr>state := (if doublequote d then QUOTE_IN_QUOTED_FIELD else IN_FIELD)\<rparr>)
               else parse_add_char r c)
      | QUOTE_IN_QUOTED_FIELD \<Rightarrow>
          (case co of
             None \<Rightarrow> Inr ((parse_save_field r)\<lparr>state := START_RECORD\<rparr>)
           | Some c \<Rightarrow>
               if c = quotechar d
               then map_sum id (\<lambda>r'. r'\<lparr>state := IN_QUOTED_FIELD\<rparr>) (parse_add_char r c)
               else if c = delimiter d then Inr ((parse_save_field r)\<lparr>state := START_FIELD\<rparr>)
               else if is_newline c then Inr ((parse_save_field r)\<lparr>state := EAT_CRNL\<rparr>)
               else map_sum id (\<lambda>r'. r'\<lparr>state := IN_FIELD\<rparr>) (parse_add_char r c))
      | EAT_CRNL \<Rightarrow>
          (case co of
             None \<Rightarrow> Inr (r\<lparr>state := START_RECORD\<rparr>)
           | Some c \<Rightarrow> if is_newline c then Inr r else Inl NewlineInUnquotedField))"

text \<open>The characters of one line, then \<open>EOL\<close>.\<close>

fun parse_line :: "dialect \<Rightarrow> reader \<Rightarrow> string \<Rightarrow> csv_error + reader" where
  "parse_line d r [] = parse_process_char d r None"
| "parse_line d r (c # cs) =
     (case parse_process_char d r (Some c) of
        Inl e \<Rightarrow> Inl e
      | Inr r' \<Rightarrow> parse_line d r' cs)"

text \<open>
  \<open>Reader_iternext\<close>, iterated over the lines of the stream: the rows the reader yields,
  in order, and then either the \<open>csv.Error\<close> that ends the iteration or the parser as the
  last line leaves it. Every call starts with \<open>parse_reset\<close>. A record is complete when a
  line leaves the parser in \<open>START_RECORD\<close>; otherwise the next line continues it.
\<close>

fun reader_lines ::
  "dialect \<Rightarrow> reader \<Rightarrow> string list \<Rightarrow> string list list \<times> (csv_error + reader)" where
  "reader_lines d r [] = ([], Inr r)"
| "reader_lines d r (l # ls) =
     (case parse_line d r l of
        Inl e \<Rightarrow> ([], Inl e)
      | Inr r' \<Rightarrow>
          if state r' \<noteq> START_RECORD then reader_lines d r' ls
          else (case reader_lines d parse_reset ls of (rows, x) \<Rightarrow> (fieldlist r' # rows, x)))"

text \<open>
  At the end of the stream a pending field or an open quoted field is saved and returned
  as the last row; otherwise the iteration stops.
\<close>

definition reader_rows ::
  "dialect \<Rightarrow> reader \<Rightarrow> string list \<Rightarrow> string list list \<times> csv_error option" where
  "reader_rows d r ls =
     (case reader_lines d r ls of
        (rows, Inl e) \<Rightarrow> (rows, Some e)
      | (rows, Inr r') \<Rightarrow>
          if field r' \<noteq> [] \<or> state r' = IN_QUOTED_FIELD
          then (rows @ [fieldlist (parse_save_field r')], None)
          else (rows, None))"

definition csv_reader :: "dialect \<Rightarrow> string \<Rightarrow> string list list \<times> csv_error option" where
  "csv_reader d content = reader_rows d parse_reset (StringIO_lines content)"

text \<open>
  \<open>csv.DictReader(f, fieldnames=headers, dialect=dialect)\<close>: rows equal to \<open>[]\<close> are
  passed over, every other row becomes \<open>dict(zip(fieldnames, row))\<close>, and the field names
  beyond the row's length are then set to \<open>None\<close> (the \<open>restval\<close>). A value \<open>None\<close> of the
  model is Python's \<open>None\<close>. Surplus cells are stored under the key \<open>None\<close>, which no
  header string equals, so that entry is left out.
\<close>

definition DictReader_row :: "string list \<Rightarrow> string list \<Rightarrow> (string \<rightharpoonup> string option)" where
  "DictReader_row fieldnames row =
     fold (\<lambda>key m. m(key \<mapsto> None)) (drop (length row) fieldnames)
       (dict_of (zip fieldnames (map Some row)))"

definition DictReader :: "string list \<Rightarrow> string list list \<Rightarrow> (string \<rightharpoonup> string option) list" where
  "DictReader fieldnames rows = map (DictReader_row fieldnames) (filter (\<lambda>row. row \<noteq> []) rows)"

section \<open>The quiz bot\<close>

definition REQUIRED_HEADERS :: "string list" where
  "REQUIRED_HEADERS =
     [''Question'', ''Option A'', ''Option B'', ''Option C'', ''Option D'', ''Answer'',
      ''Description'']"

definition normalize_header :: "string \<Rightarrow> string" where
  "normalize_header h = map py_lower (filter py_isalnum h)"

text \<open>
  \<open>REQUIRED_NORMALS\<close> is a Python set. The order in which Python iterates it is not fixed by
  the program; the model lists it in the order of \<open>REQUIRED_HEADERS\<close>, and the theorems
  speak of the set of what is computed from it.
\<close>

definition REQUIRED_NORMALS :: "string list" where
  "REQUIRED_NORMALS = remdups (map normalize_header REQUIRED_HEADERS)"

text \<open>
  What the function does to the outside: the messages it replies with, and the polls it
  sends. \<open>reply_text\<close> is taken to succeed. A message is kept as its kind and the values
  formatted into it:
  \<^item> \<open>EmptyCsv\<close>: "Error: CSV appears to be empty.";
  \<^item> \<open>HeadersMissing human_missing headers\<close>: "Error: CSV headers missing or
    mismatched", with the missing names and the headers found;
  \<^item> \<open>Processing\<close>: "Processing quiz... Please wait.";
  \<^item> \<open>SkipParse row_number e\<close>: "Skipping row ...: unable to parse columns";
  \<^item> \<open>SkipEmptyQuestion row_number\<close>: "Skipping empty question at row ...";
  \<^item> \<open>SkipMissingOptions row_number question[:40]\<close>: "Skipping question (missing
    options) at row ...";
  \<^item> \<open>SkipInvalidAnswer row_number answer_key question[:40]\<close>: "Skipping question
    (invalid answer '...') at row ...";
  \<^item> \<open>SendError row_number question[:60]\<close>: "Error sending poll for question at row
    ...";
  \<^item> \<open>Done count\<close>: "Done! Total ... quizzes generated.".

  A poll holds the arguments of \<open>send_poll\<close> that depend on the row; the call is always
  a quiz that is not anonymous. The function either returns or is left by a \<open>csv.Error\<close>
  that the reader raises and nothing catches.
\<close>

record poll =
  poll_question :: string
  poll_options :: "string list"
  poll_correct_option_id :: nat
  poll_explanation :: string
  poll_is_anonymous :: bool

datatype py_error = KeyError | IndexError

datatype message =
    EmptyCsv
  | HeadersMissing "string list" "string list"
  | Processing
  | SkipParse nat py_error
  | SkipEmptyQuestion nat
  | SkipMissingOptions nat string
  | SkipInvalidAnswer nat "nat list" string
  | SendError nat string
  | Done nat

datatype effect = Reply message | SendPoll poll

datatype outcome = Returned | Raised csv_error

text \<open>Lines 89 to 101: the header keys, the map from key to column, the missing fields.\<close>

definition header_norms :: "string list \<Rightarrow> string list" where
  "header_norms headers = map normalize_header headers"

definition header_map :: "string list \<Rightarrow> (string \<rightharpoonup> nat)" where
  "header_map headers =
     dict_of (map (\<lambda>(idx, hn). (hn, idx)) (enumerate 0 (header_norms headers)))"

definition missing :: "string list \<Rightarrow> string list" where
  "missing headers = filter (\<lambda>m. m \<notin> set (header_norms headers)) REQUIRED_NORMALS"

definition human_missing :: "string list \<Rightarrow> string list" where
  "human_missing headers =
     List.map_filter (\<lambda>m. find (\<lambda>rh. normalize_header rh = m) REQUIRED_HEADERS) (missing headers)"

text \<open>
  \<open>get_from_row\<close>: \<open>header_map[req_normal]\<close> raises \<open>KeyError\<close> on an unknown key and
  \<open>headers[idx]\<close> raises \<open>IndexError\<close> out of range; \<open>row.get(orig_header) or ""\<close> is the
  empty string when the key is absent or its value is \<open>None\<close>.
\<close>

definition get_from_row ::
  "string list \<Rightarrow> (string \<rightharpoonup> string option) \<Rightarrow> string \<Rightarrow> py_error + string" where
  "get_from_row headers row req_normal =
     (case header_map headers req_normal of
        None \<Rightarrow> Inl KeyError
      | Some idx \<Rightarrow>
          if idx < length headers
          then (let orig_header = headers ! idx in
                Inr (strip (case row orig_header of Some (Some v) \<Rightarrow> v | _ \<Rightarrow> [])))
          else Inl IndexError)"

text \<open>
  \<open>mapper = {"A": 0, "B": 1, "C": 2, "D": 3}\<close>; the answer key is compared with its keys
  as a sequence of code points.
\<close>

definition codepoints :: "string \<Rightarrow> nat list" where
  "codepoints s = map of_char s"

definition mapper :: "nat list \<rightharpoonup> nat" where
  "mapper =
     [codepoints ''A'' \<mapsto> 0, codepoints ''B'' \<mapsto> 1, codepoints ''C'' \<mapsto> 2,
      codepoints ''D'' \<mapsto> 3]"

text \<open>
  Lines 127 to 167 of the loop body: the values extracted from the row, the checks in the
  order of the source, each \<open>continue\<close> a message on the left, and on the right the poll
  that is to be sent.
\<close>

definition and_then :: "'e + 'a \<Rightarrow> ('a \<Rightarrow> 'e + 'b) \<Rightarrow> 'e + 'b" where
  "and_then x f = (case x of Inl e \<Rightarrow> Inl e | Inr v \<Rightarrow> f v)"

definition extract_row ::
  "string list \<Rightarrow> (string \<rightharpoonup> string option) \<Rightarrow>
   py_error + (string \<times> string list \<times> nat list \<times> string)" where
  "extract_row headers row =
     and_then (get_from_row headers row (normalize_header ''Question'')) (\<lambda>question.
     and_then (get_from_row headers row (normalize_header ''Option A'')) (\<lambda>option_a.
     and_then (get_from_row headers row (normalize_header ''Option B'')) (\<lambda>option_b.
     and_then (get_from_row headers row (normalize_header ''Option C'')) (\<lambda>option_c.
     and_then (get_from_row headers row (normalize_header ''Option D'')) (\<lambda>option_d.
     and_then (get_from_row headers row (normalize_header ''Answer'')) (\<lambda>answer.
     and_then (get_from_row headers row (normalize_header ''Description'')) (\<lambda>explanation.
       Inr (question, [option_a, option_b, option_c, option_d], upper answer, explanation))))))))"

definition validate_row ::
  "string list \<Rightarrow> nat \<Rightarrow> (string \<rightharpoonup> string option) \<Rightarrow> message + poll" where
  "validate_row headers row_number row =
     (case extract_row headers row of
        Inl e \<Rightarrow> Inl (SkipParse row_number e)
      | Inr (question, options, answer_key, explanation) \<Rightarrow>
          if question = [] then Inl (SkipEmptyQuestion row_number)
          else if list_ex (\<lambda>opt. opt = []) options
          then Inl (SkipMissingOptions row_number (take 40 question))
          else
            (case mapper answer_key of
               None \<Rightarrow> Inl (SkipInvalidAnswer row_number answer_key (take 40 question))
             | Some correct_option_id \<Rightarrow>
                 Inr \<lparr>poll_question = question, poll_options = options,
                      poll_correct_option_id = correct_option_id,
                      poll_explanation =
                        (if 240 < length explanation then take 237 explanation @ ''...''
                         else explanation),
                      poll_is_anonymous = False\<rparr>))"

text \<open>
  The whole loop body. \<open>send_poll row_number p\<close> tells whether the call of
  \<open>context.bot.send_poll\<close> made for that row returns (\<open>True\<close>) or raises (\<open>False\<close>); the
  counter is incremented after a call that returned.
\<close>

definition row_step ::
  "(nat \<Rightarrow> poll \<Rightarrow> bool) \<Rightarrow> string list \<Rightarrow> nat \<Rightarrow> nat \<Rightarrow>
   (string \<rightharpoonup> string option) \<Rightarrow> effect list \<times> nat" where
  "row_step send_poll headers row_number count row =
     (case validate_row headers row_number row of
        Inl msg \<Rightarrow> ([Reply msg], count)
      | Inr p \<Rightarrow>
          if send_poll row_number p then ([SendPoll p], count + 1)
          else ([SendPoll p, Reply (SendError row_number (take 60 (poll_question p)))], count))"

fun process_rows ::
  "(nat \<Rightarrow> poll \<Rightarrow> bool) \<Rightarrow> string list \<Rightarrow> nat \<Rightarrow> nat \<Rightarrow>
   (string \<rightharpoonup> string option) list \<Rightarrow> effect list \<times> nat" where
  "process_rows send_poll headers row_number count [] = ([], count)"
| "process_rows send_poll headers row_number count (row # rows) =
     (case row_step send_poll headers row_number count row of
        (effs, count') \<Rightarrow>
          (case process_rows send_poll headers (row_number + 1) count' rows of
             (effs', count'') \<Rightarrow> (effs @ effs', count'')))"

text \<open>
  \<open>sniff sample\<close> is \<open>csv.Sniffer().sniff(sample)\<close>: \<open>None\<close> when it raises. The reader
  and the \<open>DictReader\<close> both read the stream from its start with the same dialect, so
  they see the same rows; a \<open>csv.Error\<close> is not caught and leaves the function.
\<close>

definition sniffed_dialect :: "(string \<Rightarrow> dialect option) \<Rightarrow> string \<Rightarrow> dialect" where
  "sniffed_dialect sniff csv_file_content =
     (let sample = take 4096 csv_file_content in
      case sniff sample of Some d \<Rightarrow> d | None \<Rightarrow> csv_excel)"

definition process_csv_content ::
  "(string \<Rightarrow> dialect option) \<Rightarrow> (nat \<Rightarrow> poll \<Rightarrow> bool) \<Rightarrow> string \<Rightarrow> effect list \<times> outcome" where
  "process_csv_content sniff send_poll csv_file_content =
     (let dialect = sniffed_dialect sniff csv_file_content in
      case csv_reader dialect csv_file_content of
        ([], None) \<Rightarrow> ([Reply EmptyCsv], Returned)
      | ([], Some e) \<Rightarrow> ([], Raised e)
      | (headers # rest, err) \<Rightarrow>
          if missing headers \<noteq> []
          then ([Reply (HeadersMissing (human_missing headers) headers)], Returned)
          else
            (case (DictReader headers (headers # rest), err) of
               ([], Some e) \<Rightarrow> ([], Raised e)
             | (dict_rows, _) \<Rightarrow>
                 (case process_rows send_poll headers 1 0 (drop 1 dict_rows) of
                    (effs, count) \<Rightarrow>
                      (case err of
                         None \<Rightarrow> (Reply Processing # effs @ [Reply (Done count)], Returned)
                       | Some e \<Rightarrow> (Reply Processing # effs, Raised e)))))"

section \<open>Concrete collaborators\<close>

text \<open>
  A sniffer that raises on every sample, as \<open>csv.Sniffer\<close> does on a sample in which it
  finds no consistent delimiter; a sniffer that returns the dialect \<open>csv.Sniffer\<close> infers
  from the comma-separated texts below (comma, double quote, no doubled quotes, initial
  spaces kept); a channel on which every \<open>send_poll\<close> returns, and one on which every
  \<open>send_poll\<close> raises.
\<close>

definition sniff_raises :: "string \<Rightarrow> dialect option" where
  "sniff_raises sample = None"

definition comma_dialect :: dialect where
  "comma_dialect =
     \<lparr>delimiter = CHR '','', quotechar = CHR 0x22, doublequote = False, skipinitialspace = False\<rparr>"

definition sniff_comma :: "string \<Rightarrow> dialect option" where
  "sniff_comma sample = Some comma_dialect"

definition send_ok :: "nat \<Rightarrow> poll \<Rightarrow> bool" where
  "send_ok row_number p = True"

definition send_raises :: "nat \<Rightarrow> poll \<Rightarrow> bool" where
  "send_raises row_number p = False"

section \<open>Notions of the specification\<close>

text \<open>
  Two header texts that differ in casing, spacing and punctuation only: their
  alphanumeric characters, taken in order, agree up to case.
\<close>

definition label_variant :: "string \<Rightarrow> string \<Rightarrow> bool" where
  "label_variant h l =
     list_all2 (\<lambda>c c'. py_lower c = py_lower c') (filter py_isalnum h) (filter py_isalnum l)"

text \<open>
  The outcome of a row, read off the effects: the row is accepted when its poll is handed
  to \<open>send_poll\<close>, and skipped when one of the four skip messages is replied. The other
  replies (progress, delivery error, summary) are not outcomes of a row.
\<close>

fun is_accepted :: "effect \<Rightarrow> bool" where
  "is_accepted (SendPoll p) = True"
| "is_accepted (Reply msg) = False"

fun skipped_row :: "message \<Rightarrow> nat option" where
  "skipped_row (SkipParse n e) = Some n"
| "skipped_row (SkipEmptyQuestion n) = Some n"
| "skipped_row (SkipMissingOptions n q) = Some n"
| "skipped_row (SkipInvalidAnswer n a q) = Some n"
| "skipped_row msg = None"

fun is_row_outcome :: "effect \<Rightarrow> bool" where
  "is_row_outcome (SendPoll p) = True"
| "is_row_outcome (Reply msg) = (skipped_row msg \<noteq> None)"

text \<open>
  Whether the row is accepted and its poll delivered: the case in which the loop body
  increments \<open>count\<close>.
\<close>

definition delivered ::
  "(nat \<Rightarrow> poll \<Rightarrow> bool) \<Rightarrow> string list \<Rightarrow> nat \<times> (string \<rightharpoonup> string option) \<Rightarrow> bool" where
  "delivered send_poll headers nr =
     (case validate_row headers (fst nr) (snd nr) of
        Inl msg \<Rightarrow> False
      | Inr p \<Rightarrow> send_poll (fst nr) p)"

section \<open>Concrete texts\<close>

definition header_line :: string where
  "header_line = ''Question,Option A,Option B,Option C,Option D,Answer,Description''"

definition row_C :: string where
  "row_C = ''2+2=?,1,2,3,4,C,Basic math''"

definition row_E :: string where
  "row_E = ''2+2=?,1,2,3,4,E,Basic math''"

definition row_b :: string where
  "row_b = ''Capital of France?,London,Paris,Rome,Berlin,b,''"

text \<open>A data row with a carriage return inside its first cell.\<close>

definition row_bare_cr :: string where
  "row_bare_cr = ''x'' @ [CHR 0x0D] @ ''y,1,2,3,4,a,d''"

section \<open>Evaluation\<close>

lemmas text_defs =
  normalize_header_def py_lower_def py_isalnum_def py_isspace_def py_upper_def upper_def
  strip_def char_of_eq_iff

lemmas reader_defs =
  csv_reader_def StringIO_lines_def reader_rows_def parse_reset_def parse_process_char_def
  start_field_def parse_add_char_def parse_save_field_def is_newline_def field_limit_def

lemma normalize_labels:
  "normalize_header ''Question'' = ''question''"
  "normalize_header ''Option A'' = ''optiona''"
  "normalize_header ''Option B'' = ''optionb''"
  "normalize_header ''Option C'' = ''optionc''"
  "normalize_header ''Option D'' = ''optiond''"
  "normalize_header ''Answer'' = ''answer''"
  "normalize_header ''Description'' = ''description''"
  by (simp_all add: text_defs)

lemma normalize_REQUIRED_HEADERS:
  "map normalize_header REQUIRED_HEADERS =
     [''question'', ''optiona'', ''optionb'', ''optionc'', ''optiond'', ''answer'',
      ''description'']"
  by (simp add: REQUIRED_HEADERS_def normalize_labels)

lemma distinct_normalize_REQUIRED_HEADERS: "distinct (map normalize_header REQUIRED_HEADERS)"
  by (simp add: normalize_REQUIRED_HEADERS)

lemma REQUIRED_NORMALS_map: "REQUIRED_NORMALS = map normalize_header REQUIRED_HEADERS"
  by (simp add: REQUIRED_NORMALS_def distinct_remdups_id distinct_normalize_REQUIRED_HEADERS)

section \<open>The missing fields\<close>

lemma find_inj:
  "distinct (map f xs) \<Longrightarrow> y \<in> set xs \<Longrightarrow> find (\<lambda>x. f x = f y) xs = Some y"
  by (induction xs) auto

lemma map_filter_find:
  assumes "distinct (map f xs)"
  shows "List.map_filter (\<lambda>m. find (\<lambda>x. f x = m) xs) (filter Q (remdups (map f xs)))
           = filter (\<lambda>x. Q (f x)) xs"
proof -
  have a: "remdups (map f xs) = map f xs" using assms by (simp add: distinct_remdups_id)
  have b: "filter Q (map f xs) = map f (filter (\<lambda>x. Q (f x)) xs)"
    by (simp add: filter_map comp_def)
  have c: "List.map_filter (\<lambda>m. find (\<lambda>x. f x = m) xs) (map f ys) = ys"
    if "set ys \<subseteq> set xs" for ys
    using that
  proof (induction ys)
    case Nil
    then show ?case by (simp add: List.map_filter_simps)
  next
    case (Cons y ys)
    then show ?case using find_inj [OF assms, of y] by (simp add: List.map_filter_simps)
  qed
  show ?thesis by (simp add: a b c)
qed

text \<open>The names reported are the required headers whose key no header cell has.\<close>

lemma human_missing_eq:
  "human_missing headers =
     filter (\<lambda>L. normalize_header L \<notin> set (header_norms headers)) REQUIRED_HEADERS"
  unfolding human_missing_def missing_def REQUIRED_NORMALS_def
  by (rule map_filter_find [OF distinct_normalize_REQUIRED_HEADERS])

lemma missing_eq: "missing headers = map normalize_header (human_missing headers)"
  by (simp add: human_missing_eq missing_def REQUIRED_NORMALS_map filter_map comp_def)

lemma missing_Nil_iff:
  "missing headers = [] \<longleftrightarrow> set REQUIRED_NORMALS \<subseteq> set (header_norms headers)"
  by (auto simp: missing_def filter_empty_conv)

section \<open>The reader at the end of a line and of the stream\<close>

lemma readlines_nonempty: "readlines acc (c # cs) \<noteq> []"
  by (induction cs arbitrary: acc c) auto

lemma StringIO_lines_eq_Nil: "StringIO_lines content = [] \<longleftrightarrow> content = []"
  by (cases content) (simp_all add: StringIO_lines_def readlines_nonempty del: readlines.simps(2))

lemma parse_process_char_EOL_state:
  "parse_process_char d r None = Inr r' \<Longrightarrow> state r' = START_RECORD \<or> state r' = IN_QUOTED_FIELD"
  by (auto simp: parse_process_char_def start_field_def parse_save_field_def
      split: parser_state.splits)

lemma parse_line_end_state:
  "parse_line d r l = Inr r' \<Longrightarrow> state r' = START_RECORD \<or> state r' = IN_QUOTED_FIELD"
proof (induction l arbitrary: r)
  case Nil
  then show ?case using parse_process_char_EOL_state by simp
next
  case (Cons c cs)
  then show ?case by (auto split: sum.splits)
qed

lemma reader_lines_end:
  "reader_lines d r ls = (rows, Inr r') \<Longrightarrow>
     (ls = [] \<and> r' = r \<and> rows = []) \<or>
     (ls \<noteq> [] \<and> (state r' = IN_QUOTED_FIELD \<or> (r' = parse_reset \<and> rows \<noteq> [])))"
proof (induction ls arbitrary: r rows)
  case Nil
  then show ?case by simp
next
  case (Cons l ls)
  from Cons.prems obtain r1 where r1: "parse_line d r l = Inr r1"
    by (auto split: sum.splits)
  show ?case
  proof (cases "state r1 = START_RECORD")
    case True
    with Cons.prems r1 obtain rows' where
      rl: "reader_lines d parse_reset ls = (rows', Inr r')" and rows: "rows = fieldlist r1 # rows'"
      by (auto split: prod.splits)
    from Cons.IH [OF rl] rows show ?thesis by auto
  next
    case False
    with parse_line_end_state [OF r1] have q: "state r1 = IN_QUOTED_FIELD" by simp
    from False Cons.prems r1 have rl: "reader_lines d r1 ls = (rows, Inr r')" by simp
    from Cons.IH [OF rl] q show ?thesis by auto
  qed
qed

text \<open>The reader stops without a row and without an error only on the empty text.\<close>

lemma csv_reader_stop_iff: "csv_reader d content = ([], None) \<longleftrightarrow> content = []"
proof
  assume a: "csv_reader d content = ([], None)"
  show "content = []"
  proof (rule ccontr)
    assume "content \<noteq> []"
    then have ne: "StringIO_lines content \<noteq> []" by (simp add: StringIO_lines_eq_Nil)
    obtain rows x where rl: "reader_lines d parse_reset (StringIO_lines content) = (rows, x)"
      by (cases "reader_lines d parse_reset (StringIO_lines content)")
    show False
    proof (cases x)
      case (Inl e)
      with a rl show False by (simp add: csv_reader_def reader_rows_def)
    next
      case (Inr r')
      with reader_lines_end [of d parse_reset "StringIO_lines content" rows r'] rl ne
      have "state r' = IN_QUOTED_FIELD \<or> (r' = parse_reset \<and> rows \<noteq> [])" by simp
      with a rl Inr show False
        by (auto simp: csv_reader_def reader_rows_def parse_reset_def split: if_splits)
    qed
  qed
next
  assume "content = []"
  then show "csv_reader d content = ([], None)"
    by (simp add: csv_reader_def reader_rows_def StringIO_lines_def parse_reset_def)
qed

section \<open>Empty input\<close>

text \<open>
  C3, as the code has it: the reply "CSV appears to be empty" is the whole output exactly
  when the input text has no character at all. The text is not trimmed, so the reply is
  given for the empty text and for no other, whatever the sniffer and the channel do.
\<close>

theorem empty_input_fatal:
  "(process_csv_content sniff send_poll content = ([Reply EmptyCsv], Returned)) = (content = [])"
proof
  assume "content = []"
  then have "csv_reader (sniffed_dialect sniff content) content = ([], None)"
    by (simp add: csv_reader_stop_iff)
  then show "process_csv_content sniff send_poll content = ([Reply EmptyCsv], Returned)"
    by (simp add: process_csv_content_def)
next
  assume a: "process_csv_content sniff send_poll content = ([Reply EmptyCsv], Returned)"
  have "csv_reader (sniffed_dialect sniff content) content = ([], None)"
  proof (rule ccontr)
    assume n: "csv_reader (sniffed_dialect sniff content) content \<noteq> ([], None)"
    with a show False
      by (auto simp: process_csv_content_def Let_def
          split: prod.splits list.splits option.splits if_splits)
  qed
  then show "content = []" by (simp add: csv_reader_stop_iff)
qed

theorem empty_input_fatal_witness:
  "process_csv_content sniff_raises send_ok [] = ([Reply EmptyCsv], Returned)"
  using empty_input_fatal [of sniff_raises send_ok "[]"] by simp

text \<open>
  C3 as stated fails: a text of one line feed is empty after trimming, and the reply is
  the one for missing headers, with all seven fields missing and an empty header row.
\<close>

theorem whitespace_input_counterexample:
  "strip ''\<newline>'' = [] \<and>
   process_csv_content sniff_raises send_ok ''\<newline>''
     = ([Reply (HeadersMissing REQUIRED_HEADERS [])], Returned) \<and>
   process_csv_content sniff_raises send_ok ''\<newline>'' \<noteq> ([Reply EmptyCsv], Returned)"
proof -
  have r: "csv_reader csv_excel ''\<newline>'' = ([ [] ], None)"
    by (simp add: reader_defs)
  have h: "human_missing [] = REQUIRED_HEADERS"
    by (simp add: human_missing_eq header_norms_def)
  have m: "missing [] \<noteq> []"
    by (simp add: missing_eq h REQUIRED_HEADERS_def)
  have p: "process_csv_content sniff_raises send_ok ''\<newline>''
     = ([Reply (HeadersMissing REQUIRED_HEADERS [])], Returned)"
    by (simp add: process_csv_content_def sniffed_dialect_def sniff_raises_def r m h)
  show ?thesis by (simp add: p strip_def py_isspace_def)
qed

section \<open>Missing header fields\<close>

lemma distinct_singleton: "distinct xs \<Longrightarrow> set xs = {a} \<Longrightarrow> xs = [a]"
proof (cases xs)
  case Nil
  assume "set xs = {a}"
  with Nil show ?thesis by simp
next
  case (Cons x ys)
  assume d: "distinct xs" and s: "set xs = {a}"
  from s Cons have x: "x = a" by auto
  have "ys = []"
  proof (cases ys)
    case Nil
    then show ?thesis .
  next
    case (Cons y zs)
    with s \<open>xs = x # ys\<close> have "y = a" by auto
    with d x Cons \<open>xs = x # ys\<close> show ?thesis by simp
  qed
  with Cons x show ?thesis by simp
qed

text \<open>
  C6: when the first row the reader yields lacks the key of a required header, the only
  effect is one reply naming the missing required headers and carrying the header row as
  read, and the function returns: no poll is sent and no row is considered. The names
  are exactly the required headers whose key is absent, each once; when exactly one is
  absent, the list is that one name.
\<close>

theorem missing_fields_fatal:
  assumes "csv_reader (sniffed_dialect sniff content) content = (headers # rest, err)"
    and "\<exists>L\<in>set REQUIRED_HEADERS. normalize_header L \<notin> set (header_norms headers)"
  shows "process_csv_content sniff send_poll content
           = ([Reply (HeadersMissing (human_missing headers) headers)], Returned)
       \<and> set (human_missing headers)
           = {L \<in> set REQUIRED_HEADERS. normalize_header L \<notin> set (header_norms headers)}
       \<and> distinct (human_missing headers)
       \<and> (\<forall>L0. {L \<in> set REQUIRED_HEADERS. normalize_header L \<notin> set (header_norms headers)} = {L0}
            \<longrightarrow> human_missing headers = [L0])"
proof -
  have s: "set (human_missing headers)
           = {L \<in> set REQUIRED_HEADERS. normalize_header L \<notin> set (header_norms headers)}"
    by (simp add: human_missing_eq)
  have d: "distinct (human_missing headers)"
    using distinct_normalize_REQUIRED_HEADERS by (simp add: human_missing_eq distinct_map)
  from assms(2) s have "human_missing headers \<noteq> []" by auto
  then have m: "missing headers \<noteq> []" by (simp add: missing_eq)
  have p: "process_csv_content sniff send_poll content
           = ([Reply (HeadersMissing (human_missing headers) headers)], Returned)"
    using assms(1) m by (simp add: process_csv_content_def)
  show ?thesis using p s d distinct_singleton [OF d] by auto
qed

theorem missing_fields_fatal_witness:
  "process_csv_content sniff_raises send_ok
     ''Question,Option A,Option B,Answer,Description\<newline>a,b''
   = ([Reply (HeadersMissing [''Option C'', ''Option D'']
        [''Question'', ''Option A'', ''Option B'', ''Answer'', ''Description''])], Returned)"
proof -
  let ?hs = "[''Question'', ''Option A'', ''Option B'', ''Answer'', ''Description'']"
  have r: "csv_reader (sniffed_dialect sniff_raises
             ''Question,Option A,Option B,Answer,Description\<newline>a,b'')
             ''Question,Option A,Option B,Answer,Description\<newline>a,b''
           = (?hs # [ [''a'', ''b''] ], None)"
    by (simp add: sniffed_dialect_def sniff_raises_def csv_excel_def reader_defs)
  have n: "header_norms ?hs = [''question'', ''optiona'', ''optionb'', ''answer'', ''description'']"
    by (simp add: header_norms_def normalize_labels)
  have e: "\<exists>L\<in>set REQUIRED_HEADERS. normalize_header L \<notin> set (header_norms ?hs)"
    by (simp add: n REQUIRED_HEADERS_def normalize_labels)
  have h: "human_missing ?hs = [''Option C'', ''Option D'']"
    by (simp add: human_missing_eq n REQUIRED_HEADERS_def normalize_labels)
  show ?thesis using missing_fields_fatal [OF r e, of send_ok] by (simp add: h)
qed

section \<open>Dialect sniffing\<close>

text \<open>
  C8: the sniffer is given the first 4096 characters and nothing else, so the dialect
  depends on the text only through them, and the run depends on the sniffer only through
  what it does on that sample. When the sniffer raises, the dialect is \<open>csv.excel\<close>
  (comma, double quote) and the run is the run of a sniffer that had returned
  \<open>csv.excel\<close>: no effect and no exception tells the failure.
\<close>

theorem sniffing_falls_back:
  "(take 4096 content = take 4096 content' \<longrightarrow>
      sniffed_dialect sniff content = sniffed_dialect sniff content')
   \<and> (sniff (take 4096 content) = sniff' (take 4096 content) \<longrightarrow>
        process_csv_content sniff send_poll content = process_csv_content sniff' send_poll content)
   \<and> (sniff (take 4096 content) = None \<longrightarrow>
        sniffed_dialect sniff content = csv_excel
        \<and> process_csv_content sniff send_poll content
            = process_csv_content (\<lambda>sample. Some csv_excel) send_poll content)
   \<and> delimiter csv_excel = CHR '','' \<and> quotechar csv_excel = CHR 0x22"
  by (simp add: sniffed_dialect_def process_csv_content_def csv_excel_def)

theorem sniffing_falls_back_witness:
  "sniffed_dialect sniff_raises ''Question\<newline>abc\<newline>'' = csv_excel
   \<and> process_csv_content sniff_raises send_ok ''Question\<newline>abc\<newline>''
       = process_csv_content (\<lambda>sample. Some csv_excel) send_ok ''Question\<newline>abc\<newline>''"
  using sniffing_falls_back
    [of "''Question\<newline>abc\<newline>''" "''Question\<newline>abc\<newline>''" sniff_raises sniff_raises send_ok]
  by (simp add: sniff_raises_def)

section \<open>The answer letter\<close>

lemma py_upper_nonempty: "py_upper c \<noteq> []"
  by (simp add: py_upper_def Let_def)

lemma upper_Nil_iff: "upper s = [] \<longleftrightarrow> s = []"
  by (cases s) (simp_all add: upper_def py_upper_nonempty)

lemma upper_singleton: "upper s = [x] \<Longrightarrow> \<exists>c. s = [c] \<and> py_upper c = [x]"
proof (cases s)
  case Nil
  assume "upper s = [x]"
  with Nil show ?thesis by (simp add: upper_def)
next
  case (Cons c cs)
  assume a: "upper s = [x]"
  with Cons have e: "py_upper c @ upper cs = [x]" by (simp add: upper_def)
  with py_upper_nonempty [of c] have "py_upper c = [x] \<and> upper cs = []"
    by (cases "py_upper c") (simp_all)
  with Cons show ?thesis by (simp add: upper_Nil_iff)
qed

lemma of_char_eq_numeral: "(of_char c :: nat) = n \<Longrightarrow> c = char_of n"
  by (metis char_of_char)

lemma py_upper_letter:
  "py_upper c = [65] \<longleftrightarrow> c = CHR ''a'' \<or> c = CHR ''A''"
  "py_upper c = [66] \<longleftrightarrow> c = CHR ''b'' \<or> c = CHR ''B''"
  "py_upper c = [67] \<longleftrightarrow> c = CHR ''c'' \<or> c = CHR ''C''"
  "py_upper c = [68] \<longleftrightarrow> c = CHR ''d'' \<or> c = CHR ''D''"
proof -
  have l: "c = char_of N \<or> c = char_of (N + 32)"
    if "py_upper c = [N]" "N = 65 \<or> N = 66 \<or> N = 67 \<or> N = 68" for N
  proof -
    from that have "(of_char c :: nat) = N \<or> (of_char c :: nat) = N + 32"
      by (auto simp: py_upper_def Let_def split: if_splits)
    then show ?thesis using of_char_eq_numeral by blast
  qed
  have c: "char_of (65::nat) = CHR ''A''" "char_of (66::nat) = CHR ''B''"
    "char_of (67::nat) = CHR ''C''" "char_of (68::nat) = CHR ''D''"
    "char_of (97::nat) = CHR ''a''" "char_of (98::nat) = CHR ''b''"
    "char_of (99::nat) = CHR ''c''" "char_of (100::nat) = CHR ''d''"
    by (simp_all add: char_of_eq_iff)
  show "py_upper c = [65] \<longleftrightarrow> c = CHR ''a'' \<or> c = CHR ''A''"
    using l [of 65] c by (auto simp: py_upper_def)
  show "py_upper c = [66] \<longleftrightarrow> c = CHR ''b'' \<or> c = CHR ''B''"
    using l [of 66] c by (auto simp: py_upper_def)
  show "py_upper c = [67] \<longleftrightarrow> c = CHR ''c'' \<or> c = CHR ''C''"
    using l [of 67] c by (auto simp: py_upper_def)
  show "py_upper c = [68] \<longleftrightarrow> c = CHR ''d'' \<or> c = CHR ''D''"
    using l [of 68] c by (auto simp: py_upper_def)
qed

lemma upper_single_iff: "upper s = [x] \<longleftrightarrow> (\<exists>c. s = [c] \<and> py_upper c = [x])"
proof
  assume "upper s = [x]"
  then show "\<exists>c. s = [c] \<and> py_upper c = [x]" by (rule upper_singleton)
next
  assume "\<exists>c. s = [c] \<and> py_upper c = [x]"
  then show "upper s = [x]" by (auto simp: upper_def)
qed

lemma upper_letter:
  "upper s = [65] \<longleftrightarrow> s = ''a'' \<or> s = ''A''"
  "upper s = [66] \<longleftrightarrow> s = ''b'' \<or> s = ''B''"
  "upper s = [67] \<longleftrightarrow> s = ''c'' \<or> s = ''C''"
  "upper s = [68] \<longleftrightarrow> s = ''d'' \<or> s = ''D''"
  unfolding upper_single_iff py_upper_letter by blast+

lemma mapper_eq:
  "mapper ak = (if ak = [68] then Some 3 else if ak = [67] then Some 2
                else if ak = [66] then Some 1 else if ak = [65] then Some 0 else None)"
  by (simp add: mapper_def codepoints_def)

section \<open>Rows under the canonical header row\<close>

lemma header_map_REQUIRED:
  "header_map REQUIRED_HEADERS ''question'' = Some 0"
  "header_map REQUIRED_HEADERS ''optiona'' = Some 1"
  "header_map REQUIRED_HEADERS ''optionb'' = Some 2"
  "header_map REQUIRED_HEADERS ''optionc'' = Some 3"
  "header_map REQUIRED_HEADERS ''optiond'' = Some 4"
  "header_map REQUIRED_HEADERS ''answer'' = Some 5"
  "header_map REQUIRED_HEADERS ''description'' = Some 6"
  by (simp_all add: header_map_def header_norms_def normalize_REQUIRED_HEADERS dict_of_def
      enumerate_eq_zip upt_rec)

lemma strip_replicate: "\<not> py_isspace x \<Longrightarrow> strip (replicate n x) = replicate n x"
proof -
  assume a: "\<not> py_isspace x"
  have "dropWhile py_isspace (replicate n x) = replicate n x"
    using a by (cases n) simp_all
  then show ?thesis by (simp add: strip_def)
qed

lemma get_from_row_REQUIRED:
  "get_from_row REQUIRED_HEADERS (DictReader_row REQUIRED_HEADERS [c0, c1, c2, c3, c4, c5, c6]) ''question'' = Inr (strip c0)"
  "get_from_row REQUIRED_HEADERS (DictReader_row REQUIRED_HEADERS [c0, c1, c2, c3, c4, c5, c6]) ''optiona'' = Inr (strip c1)"
  "get_from_row REQUIRED_HEADERS (DictReader_row REQUIRED_HEADERS [c0, c1, c2, c3, c4, c5, c6]) ''optionb'' = Inr (strip c2)"
  "get_from_row REQUIRED_HEADERS (DictReader_row REQUIRED_HEADERS [c0, c1, c2, c3, c4, c5, c6]) ''optionc'' = Inr (strip c3)"
  "get_from_row REQUIRED_HEADERS (DictReader_row REQUIRED_HEADERS [c0, c1, c2, c3, c4, c5, c6]) ''optiond'' = Inr (strip c4)"
  "get_from_row REQUIRED_HEADERS (DictReader_row REQUIRED_HEADERS [c0, c1, c2, c3, c4, c5, c6]) ''answer'' = Inr (strip c5)"
  "get_from_row REQUIRED_HEADERS (DictReader_row REQUIRED_HEADERS [c0, c1, c2, c3, c4, c5, c6]) ''description'' = Inr (strip c6)"
  by (simp_all add: get_from_row_def header_map_REQUIRED)
    (simp_all add: REQUIRED_HEADERS_def DictReader_row_def dict_of_def)

lemma extract_row_REQUIRED:
  "extract_row REQUIRED_HEADERS (DictReader_row REQUIRED_HEADERS [c0, c1, c2, c3, c4, c5, c6])
     = Inr (strip c0, [strip c1, strip c2, strip c3, strip c4], upper (strip c5), strip c6)"
  by (simp add: extract_row_def and_then_def normalize_labels get_from_row_REQUIRED)

section \<open>Validation of a row\<close>

lemma extract_row_answer:
  assumes "extract_row headers row = Inr (q, opts, ak, expl)"
    and "get_from_row headers row (normalize_header ''Answer'') = Inr ans"
  shows "ak = upper ans"
  using assms by (auto simp: extract_row_def and_then_def split: sum.splits)

lemma extract_row_explanation:
  assumes "extract_row headers row = Inr (q, opts, ak, expl)"
  shows "get_from_row headers row (normalize_header ''Description'') = Inr expl"
  using assms by (auto simp: extract_row_def and_then_def split: sum.splits)

lemma validate_row_accept:
  assumes "extract_row headers row = Inr (q, opts, ak, expl)"
    and "q \<noteq> []" and "\<not> list_ex (\<lambda>opt. opt = []) opts" and "mapper ak = Some i"
  shows "validate_row headers n row =
     Inr \<lparr>poll_question = q, poll_options = opts, poll_correct_option_id = i,
          poll_explanation = (if 240 < length expl then take 237 expl @ ''...'' else expl),
          poll_is_anonymous = False\<rparr>"
  using assms by (simp add: validate_row_def)

lemma validate_row_invalid_answer:
  assumes "extract_row headers row = Inr (q, opts, ak, expl)"
    and "q \<noteq> []" and "\<not> list_ex (\<lambda>opt. opt = []) opts" and "mapper ak = None"
  shows "validate_row headers n row = Inl (SkipInvalidAnswer n ak (take 40 q))"
  using assms by (simp add: validate_row_def)

text \<open>
  C4: for a row whose question and four options are not empty, with \<open>ans\<close> the trimmed
  answer cell: each of a, b, c, d, A, B, C, D gives a poll with correct option 0, 1, 2, 3
  for A, B, C, D in either case; every other answer gives the reply that skips the row,
  carrying the row number and the upper-cased answer. The eight letters are the only
  answers whose upper case is a key of \<open>mapper\<close>.
\<close>

theorem answer_letter_validation:
  assumes "extract_row headers row = Inr (q, opts, ak, expl)"
    and "get_from_row headers row (normalize_header ''Answer'') = Inr ans"
    and "q \<noteq> []" and "\<not> list_ex (\<lambda>opt. opt = []) opts"
  shows "(ans \<in> {''a'', ''A''} \<longrightarrow>
            (\<exists>p. validate_row headers n row = Inr p \<and> poll_correct_option_id p = 0))
       \<and> (ans \<in> {''b'', ''B''} \<longrightarrow>
            (\<exists>p. validate_row headers n row = Inr p \<and> poll_correct_option_id p = 1))
       \<and> (ans \<in> {''c'', ''C''} \<longrightarrow>
            (\<exists>p. validate_row headers n row = Inr p \<and> poll_correct_option_id p = 2))
       \<and> (ans \<in> {''d'', ''D''} \<longrightarrow>
            (\<exists>p. validate_row headers n row = Inr p \<and> poll_correct_option_id p = 3))
       \<and> (ans \<notin> {''a'', ''A'', ''b'', ''B'', ''c'', ''C'', ''d'', ''D''} \<longrightarrow>
            validate_row headers n row = Inl (SkipInvalidAnswer n (upper ans) (take 40 q)))
       \<and> (upper ans \<in> dom mapper
            \<longleftrightarrow> ans \<in> {''a'', ''A'', ''b'', ''B'', ''c'', ''C'', ''d'', ''D''})"
proof -
  have ak: "ak = upper ans" using assms(1,2) by (rule extract_row_answer)
  have a: "ans \<in> {''a'', ''A''} \<Longrightarrow> mapper ak = Some 0"
    using upper_letter(1) [of ans] by (simp add: ak mapper_eq)
  have b: "ans \<in> {''b'', ''B''} \<Longrightarrow> mapper ak = Some 1"
    using upper_letter(2) [of ans] by (simp add: ak mapper_eq)
  have c: "ans \<in> {''c'', ''C''} \<Longrightarrow> mapper ak = Some 2"
    using upper_letter(3) [of ans] by (simp add: ak mapper_eq)
  have d: "ans \<in> {''d'', ''D''} \<Longrightarrow> mapper ak = Some 3"
    using upper_letter(4) [of ans] by (simp add: ak mapper_eq)
  have e: "ans \<notin> {''a'', ''A'', ''b'', ''B'', ''c'', ''C'', ''d'', ''D''} \<Longrightarrow> mapper ak = None"
    using upper_letter [of ans] by (simp add: ak mapper_eq)
  have "upper ans \<in> dom mapper
          \<longleftrightarrow> upper ans = [65] \<or> upper ans = [66] \<or> upper ans = [67] \<or> upper ans = [68]"
    by (auto simp: dom_def mapper_eq split: if_splits)
  then have f: "upper ans \<in> dom mapper
            \<longleftrightarrow> ans \<in> {''a'', ''A'', ''b'', ''B'', ''c'', ''C'', ''d'', ''D''}"
    unfolding upper_letter by blast
  note acc = validate_row_accept [OF assms(1,3,4)]
  note rej = validate_row_invalid_answer [OF assms(1,3,4)]
  show ?thesis
    using acc [OF a] acc [OF b] acc [OF c] acc [OF d] rej [OF e] f
    by (simp add: ak)
qed

theorem answer_letter_validation_witness:
  "(\<exists>p. validate_row REQUIRED_HEADERS 1
          (DictReader_row REQUIRED_HEADERS [''2+2=?'', ''1'', ''2'', ''3'', ''4'', '' c '', ''Basic math''])
          = Inr p \<and> poll_correct_option_id p = 2)
   \<and> validate_row REQUIRED_HEADERS 2
        (DictReader_row REQUIRED_HEADERS [''2+2=?'', ''1'', ''2'', ''3'', ''4'', ''E'', ''Basic math''])
        = Inl (SkipInvalidAnswer 2 [69] ''2+2=?'')"
proof -
  have s: "strip ''2+2=?'' = ''2+2=?''" "strip ''1'' = ''1''" "strip ''2'' = ''2''"
    "strip ''3'' = ''3''" "strip ''4'' = ''4''" "strip '' c '' = ''c''" "strip ''E'' = ''E''"
    "strip ''Basic math'' = ''Basic math''"
    by (simp_all add: strip_def py_isspace_def)
  have u: "upper ''c'' = [67]" "upper ''E'' = [69]"
    by (simp_all add: upper_def py_upper_def)
  let ?r1 = "DictReader_row REQUIRED_HEADERS [''2+2=?'', ''1'', ''2'', ''3'', ''4'', '' c '', ''Basic math'']"
  let ?r2 = "DictReader_row REQUIRED_HEADERS [''2+2=?'', ''1'', ''2'', ''3'', ''4'', ''E'', ''Basic math'']"
  have e1: "extract_row REQUIRED_HEADERS ?r1
      = Inr (''2+2=?'', [''1'', ''2'', ''3'', ''4''], [67], ''Basic math'')"
    by (simp add: extract_row_REQUIRED s u)
  have g1: "get_from_row REQUIRED_HEADERS ?r1 (normalize_header ''Answer'') = Inr ''c''"
    by (simp add: normalize_labels get_from_row_REQUIRED s)
  have e2: "extract_row REQUIRED_HEADERS ?r2
      = Inr (''2+2=?'', [''1'', ''2'', ''3'', ''4''], [69], ''Basic math'')"
    by (simp add: extract_row_REQUIRED s u)
  have g2: "get_from_row REQUIRED_HEADERS ?r2 (normalize_header ''Answer'') = Inr ''E''"
    by (simp add: normalize_labels get_from_row_REQUIRED s)
  have q: "''2+2=?'' \<noteq> []" "\<not> list_ex (\<lambda>opt. opt = []) [''1'', ''2'', ''3'', ''4'']"
    by simp_all
  show ?thesis
    using answer_letter_validation [OF e1 g1 q, of 1] answer_letter_validation [OF e2 g2 q, of 2]
    by (simp add: u)
qed

text \<open>
  C5: a row that passes the question, option and answer checks always yields a poll,
  whatever the length of its explanation. An explanation of at most 240 characters is
  passed unchanged; a longer one becomes 240 characters, the first 237 its own and the
  last three the dots.
\<close>

theorem explanation_truncation:
  assumes "extract_row headers row = Inr (q, opts, ak, expl)"
    and "q \<noteq> []" and "\<not> list_ex (\<lambda>opt. opt = []) opts" and "mapper ak = Some i"
  shows "\<exists>p. validate_row headers n row = Inr p
           \<and> (length expl \<le> 240 \<longrightarrow> poll_explanation p = expl)
           \<and> (240 < length expl \<longrightarrow>
                length (poll_explanation p) = 240
                \<and> take 237 (poll_explanation p) = take 237 expl
                \<and> drop 237 (poll_explanation p) = ''...'')"
  using validate_row_accept [OF assms] by simp

theorem explanation_truncation_witness:
  "\<exists>p. validate_row REQUIRED_HEADERS 1
          (DictReader_row REQUIRED_HEADERS
             [''q'', ''1'', ''2'', ''3'', ''4'', ''b'', replicate 241 (CHR ''x'')]) = Inr p
        \<and> length (poll_explanation p) = 240
        \<and> take 237 (poll_explanation p) = replicate 237 (CHR ''x'')
        \<and> drop 237 (poll_explanation p) = ''...''"
proof -
  have s: "strip ''q'' = ''q''" "strip ''1'' = ''1''" "strip ''2'' = ''2''"
    "strip ''3'' = ''3''" "strip ''4'' = ''4''" "strip ''b'' = ''b''"
    by (simp_all add: strip_def py_isspace_def)
  have x: "strip (replicate 241 (CHR ''x'')) = replicate 241 (CHR ''x'')"
    by (rule strip_replicate) (simp add: py_isspace_def)
  have u: "upper ''b'' = [66]"
    by (simp add: upper_def py_upper_def)
  have e: "extract_row REQUIRED_HEADERS
      (DictReader_row REQUIRED_HEADERS [''q'', ''1'', ''2'', ''3'', ''4'', ''b'', replicate 241 (CHR ''x'')])
      = Inr (''q'', [''1'', ''2'', ''3'', ''4''], [66], replicate 241 (CHR ''x''))"
    by (simp add: extract_row_REQUIRED s x u)
  have q: "''q'' \<noteq> []" "\<not> list_ex (\<lambda>opt. opt = []) [''1'', ''2'', ''3'', ''4'']"
    "mapper [66] = Some 1"
    by (simp_all add: mapper_eq)
  show ?thesis
    using explanation_truncation [OF e q, of 1] by simp
qed

section \<open>Dictionaries: the last assignment wins\<close>

lemma dict_of_snoc: "dict_of (kvs @ [(k, v)]) = (dict_of kvs)(k \<mapsto> v)"
  by (simp add: dict_of_def)

lemma dict_of_Nil: "dict_of [] = Map.empty"
  by (simp add: dict_of_def)

lemma dom_dict_of: "dom (dict_of kvs) = fst ` set kvs"
proof (induction kvs rule: rev_induct)
  case Nil
  then show ?case by (simp add: dict_of_Nil)
next
  case (snoc kv kvs)
  obtain k v where kv: "kv = (k, v)" by (cases kv)
  have "dom ((dict_of kvs)(k \<mapsto> v)) = insert k (dom (dict_of kvs))" by auto
  then have "dom (dict_of (kvs @ [kv])) = insert k (dom (dict_of kvs))"
    by (simp only: kv dict_of_snoc)
  with snoc show ?case by (simp add: kv)
qed

text \<open>The value of a key is the value assigned to it last.\<close>

lemma dict_of_last:
  "i < length kvs \<Longrightarrow> \<forall>j. i < j \<and> j < length kvs \<longrightarrow> fst (kvs ! j) \<noteq> fst (kvs ! i) \<Longrightarrow>
   dict_of kvs (fst (kvs ! i)) = Some (snd (kvs ! i))"
proof (induction kvs rule: rev_induct)
  case Nil
  then show ?case by simp
next
  case (snoc kv kvs)
  obtain k v where kv: "kv = (k, v)" by (cases kv)
  show ?case
  proof (cases "i = length kvs")
    case True
    then show ?thesis by (simp add: kv dict_of_snoc)
  next
    case False
    with snoc.prems(1) have i: "i < length kvs" by simp
    from snoc.prems(2) [rule_format, of "length kvs"] i
    have ne: "k \<noteq> fst (kvs ! i)" by (simp add: kv nth_append)
    have "\<forall>j. i < j \<and> j < length kvs \<longrightarrow> fst (kvs ! j) \<noteq> fst (kvs ! i)"
    proof (intro allI impI)
      fix j assume j: "i < j \<and> j < length kvs"
      with snoc.prems(2) [rule_format, of j] i show "fst (kvs ! j) \<noteq> fst (kvs ! i)"
        by (simp add: nth_append)
    qed
    from snoc.IH [OF i this] ne i show ?thesis
      by (simp add: kv dict_of_snoc nth_append)
  qed
qed

lemma last_index_exists:
  "k \<in> set xs \<Longrightarrow> \<exists>i<length xs. xs ! i = k \<and> (\<forall>j. i < j \<and> j < length xs \<longrightarrow> xs ! j \<noteq> k)"
proof (induction xs rule: rev_induct)
  case Nil
  then show ?case by simp
next
  case (snoc x xs)
  show ?case
  proof (cases "x = k")
    case True
    then show ?thesis by (intro exI [of _ "length xs"]) auto
  next
    case False
    with snoc.prems have "k \<in> set xs" by simp
    from snoc.IH [OF this] obtain i where
      i: "i < length xs" "xs ! i = k" "\<forall>j. i < j \<and> j < length xs \<longrightarrow> xs ! j \<noteq> k" by blast
    have "\<forall>j. i < j \<and> j < length (xs @ [x]) \<longrightarrow> (xs @ [x]) ! j \<noteq> k"
    proof (intro allI impI)
      fix j assume j: "i < j \<and> j < length (xs @ [x])"
      show "(xs @ [x]) ! j \<noteq> k"
      proof (cases "j < length xs")
        case True
        with i(3) j show ?thesis by (simp add: nth_append)
      next
        case False
        with j have "j = length xs" by simp
        with \<open>x \<noteq> k\<close> show ?thesis by simp
      qed
    qed
    with i(1,2) show ?thesis by (intro exI [of _ i]) (simp add: nth_append)
  qed
qed

lemma header_pairs_nth:
  "i < length xs \<Longrightarrow> map (\<lambda>(idx, hn). (hn, idx)) (enumerate 0 xs) ! i = (xs ! i, i)"
  by (simp add: nth_enumerate_eq)

lemma header_map_last:
  assumes "i < length headers"
    and "\<forall>j. i < j \<and> j < length headers \<longrightarrow> normalize_header (headers ! j) \<noteq> normalize_header (headers ! i)"
  shows "header_map headers (normalize_header (headers ! i)) = Some i"
proof -
  let ?kvs = "map (\<lambda>(idx, hn). (hn, idx)) (enumerate 0 (header_norms headers))"
  have len: "length ?kvs = length headers" by (simp add: header_norms_def)
  have nth: "?kvs ! j = (normalize_header (headers ! j), j)" if "j < length headers" for j
    using that header_pairs_nth [of j "map normalize_header headers"]
    by (simp add: header_norms_def)
  have "dict_of ?kvs (fst (?kvs ! i)) = Some (snd (?kvs ! i))"
  proof (rule dict_of_last)
    show "i < length ?kvs" using assms(1) len by simp
    show "\<forall>j. i < j \<and> j < length ?kvs \<longrightarrow> fst (?kvs ! j) \<noteq> fst (?kvs ! i)"
      using assms nth len by auto
  qed
  then show ?thesis using nth [OF assms(1)] by (simp add: header_map_def)
qed

lemma dom_header_map: "dom (header_map headers) = set (header_norms headers)"
proof -
  have "fst ` set (map (\<lambda>(idx, hn). (hn, idx)) (enumerate 0 xs)) = set xs" for xs :: "string list"
    by (force simp: enumerate_eq_zip in_set_zip in_set_conv_nth image_iff)
  then show ?thesis by (simp add: header_map_def dom_dict_of)
qed

lemma fold_upd_None:
  "fold (\<lambda>key m. m(key \<mapsto> None)) ks m k = (if k \<in> set ks then Some None else m k)"
  by (induction ks arbitrary: m) auto

lemma DictReader_row_last:
  assumes "i < length fieldnames"
    and "\<forall>j. i < j \<and> j < length fieldnames \<longrightarrow> fieldnames ! j \<noteq> fieldnames ! i"
  shows "DictReader_row fieldnames row (fieldnames ! i)
           = Some (if i < length row then Some (row ! i) else None)"
proof (cases "i < length row")
  case True
  let ?kvs = "zip fieldnames (map Some row)"
  have notin: "fieldnames ! i \<notin> set (drop (length row) fieldnames)"
  proof
    assume "fieldnames ! i \<in> set (drop (length row) fieldnames)"
    then obtain j where j: "j < length (drop (length row) fieldnames)"
      "drop (length row) fieldnames ! j = fieldnames ! i"
      by (auto simp: in_set_conv_nth)
    then have "fieldnames ! (length row + j) = fieldnames ! i" by simp
    moreover from j True have "i < length row + j \<and> length row + j < length fieldnames" by simp
    ultimately show False using assms(2) by blast
  qed
  have "dict_of ?kvs (fst (?kvs ! i)) = Some (snd (?kvs ! i))"
  proof (rule dict_of_last)
    show "i < length ?kvs" using True assms(1) by simp
    show "\<forall>j. i < j \<and> j < length ?kvs \<longrightarrow> fst (?kvs ! j) \<noteq> fst (?kvs ! i)"
      using True assms by auto
  qed
  then have "dict_of ?kvs (fieldnames ! i) = Some (Some (row ! i))"
    using True assms(1) by simp
  with notin True show ?thesis by (simp add: DictReader_row_def fold_upd_None)
next
  case False
  then have "fieldnames ! i = drop (length row) fieldnames ! (i - length row)"
    using assms(1) by simp
  moreover have "i - length row < length (drop (length row) fieldnames)"
    using False assms(1) by simp
  ultimately have "fieldnames ! i \<in> set (drop (length row) fieldnames)"
    by (metis nth_mem)
  with False show ?thesis by (simp add: DictReader_row_def fold_upd_None)
qed

section \<open>The header map\<close>

lemma header_map_key:
  assumes "k \<in> set (header_norms headers)"
  shows "\<exists>i. header_map headers k = Some i \<and> i < length headers
            \<and> normalize_header (headers ! i) = k
            \<and> (\<forall>j. i < j \<and> j < length headers \<longrightarrow> normalize_header (headers ! j) \<noteq> k)"
proof -
  from last_index_exists [OF assms] obtain i where
    i: "i < length headers" "normalize_header (headers ! i) = k"
    and l: "\<forall>j. i < j \<and> j < length headers \<longrightarrow> normalize_header (headers ! j) \<noteq> k"
    by (auto simp: header_norms_def)
  have m: "header_map headers k = Some i"
    using header_map_last [of i headers] i l by simp
  from m i l show ?thesis by blast
qed

text \<open>
  C1, as the code has it: the dictionary comprehension assigns the columns in order, so
  a key that several header cells normalize to is mapped to the last of them, the largest
  column index with that key; and \<open>get_from_row\<close> then reads that column of the row (the
  empty string when the row is too short), trimmed.
\<close>

theorem duplicate_header_last_wins:
  assumes "k \<in> set (header_norms headers)"
  shows "\<exists>i. header_map headers k = Some i \<and> i < length headers
            \<and> normalize_header (headers ! i) = k
            \<and> (\<forall>j < length headers. normalize_header (headers ! j) = k \<longrightarrow> j \<le> i)
            \<and> get_from_row headers (DictReader_row headers row) k
                = Inr (strip (if i < length row then row ! i else []))"
proof -
  from header_map_key [OF assms] obtain i where
    m: "header_map headers k = Some i" and
    i: "i < length headers" "normalize_header (headers ! i) = k"
    and l: "\<forall>j. i < j \<and> j < length headers \<longrightarrow> normalize_header (headers ! j) \<noteq> k"
    by blast
  have le: "\<forall>j < length headers. normalize_header (headers ! j) = k \<longrightarrow> j \<le> i"
  proof (intro allI impI)
    fix j assume j: "j < length headers" "normalize_header (headers ! j) = k"
    show "j \<le> i"
    proof (rule ccontr)
      assume "\<not> j \<le> i"
      then have "i < j" by simp
      with l j show False by blast
    qed
  qed
  have raw: "\<forall>j. i < j \<and> j < length headers \<longrightarrow> headers ! j \<noteq> headers ! i"
    using l i(2) by auto
  have d: "DictReader_row headers row (headers ! i)
           = Some (if i < length row then Some (row ! i) else None)"
    using i(1) raw by (rule DictReader_row_last)
  have g: "get_from_row headers (DictReader_row headers row) k
                = Inr (strip (if i < length row then row ! i else []))"
    using i(1) by (simp add: get_from_row_def m d)
  from m i le g show ?thesis by blast
qed

theorem duplicate_header_last_wins_witness:
  "\<exists>i. header_map [''Question'', ''Answer'', ''question''] ''question'' = Some i
      \<and> i < 3
      \<and> (\<forall>j < 3. normalize_header ([''Question'', ''Answer'', ''question''] ! j) = ''question''
            \<longrightarrow> j \<le> i)"
proof -
  have n: "header_norms [''Question'', ''Answer'', ''question'']
             = [''question'', ''answer'', ''question'']"
    by (simp add: header_norms_def text_defs)
  have k: "''question'' \<in> set (header_norms [''Question'', ''Answer'', ''question''])"
    by (simp add: n)
  show ?thesis
    using duplicate_header_last_wins [OF k, of "[]"] by auto
qed

text \<open>
  C1 as stated fails: with the seven required headers followed by a column \<open>question\<close>,
  columns 0 and 7 both normalize to \<open>question\<close> and the map sends the key to 7, not to
  the first occurrence 0.
\<close>

theorem duplicate_header_counterexample:
  "normalize_header ((REQUIRED_HEADERS @ [''question'']) ! 0) = ''question''
   \<and> normalize_header ((REQUIRED_HEADERS @ [''question'']) ! 7) = ''question''
   \<and> header_map (REQUIRED_HEADERS @ [''question'']) ''question'' = Some 7
   \<and> header_map (REQUIRED_HEADERS @ [''question'']) ''question'' \<noteq> Some 0"
proof -
  let ?hs = "REQUIRED_HEADERS @ [''question'']"
  have q: "normalize_header ''question'' = ''question''" by (simp add: text_defs)
  have a: "normalize_header (?hs ! 0) = ''question''"
    by (simp add: REQUIRED_HEADERS_def normalize_labels)
  have b: "?hs ! 7 = ''question''"
    by (simp add: REQUIRED_HEADERS_def)
  have len: "length ?hs = 8" by (simp add: REQUIRED_HEADERS_def)
  have "\<forall>j. 7 < j \<and> j < length ?hs \<longrightarrow>
          normalize_header (?hs ! j) \<noteq> normalize_header (?hs ! 7)"
    unfolding len by auto
  moreover have "7 < length ?hs" unfolding len by simp
  ultimately have "header_map ?hs (normalize_header (?hs ! 7)) = Some 7"
    using header_map_last [of 7 ?hs] by blast
  then have c: "header_map ?hs ''question'' = Some 7" by (simp only: b q)
  show ?thesis using a b c q by simp
qed

lemma label_variant_iff: "label_variant h l \<longleftrightarrow> normalize_header h = normalize_header l"
  by (simp add: label_variant_def normalize_header_def list_all2_map1 list_all2_map2
      list_all2_eq)

lemma card_REQUIRED_NORMALS: "card (set REQUIRED_NORMALS) = 7"
proof -
  have "distinct REQUIRED_NORMALS"
    by (simp add: REQUIRED_NORMALS_map distinct_normalize_REQUIRED_HEADERS)
  then have "card (set REQUIRED_NORMALS) = length REQUIRED_NORMALS" by (rule distinct_card)
  then show ?thesis by (simp add: REQUIRED_NORMALS_map REQUIRED_HEADERS_def)
qed

text \<open>
  C7: let the header cells whose key is required be, in their order, variants in case,
  spacing and punctuation of a permutation of the seven required headers; the other
  cells are extra columns. Then no field is missing, the map restricted to the required
  keys has exactly seven entries, every required header is mapped to a column whose cell
  is a variant of it, and without extra columns the map itself has exactly seven entries.
\<close>

theorem schema_match_permutation:
  assumes "list_all2 label_variant
             (filter (\<lambda>h. normalize_header h \<in> set REQUIRED_NORMALS) headers) ls"
    and "distinct ls" and "set ls = set REQUIRED_HEADERS"
  shows "missing headers = []
       \<and> card (dom (header_map headers |` set REQUIRED_NORMALS)) = 7
       \<and> (\<forall>L \<in> set REQUIRED_HEADERS. \<exists>i < length headers.
             header_map headers (normalize_header L) = Some i \<and> label_variant (headers ! i) L)
       \<and> ((\<forall>h \<in> set headers. normalize_header h \<in> set REQUIRED_NORMALS) \<longrightarrow>
             card (dom (header_map headers)) = 7)"
proof -
  let ?rel = "filter (\<lambda>h. normalize_header h \<in> set REQUIRED_NORMALS) headers"
  from assms(1) have "list_all2 (\<lambda>h l. normalize_header h = normalize_header l) ?rel ls"
    by (simp add: label_variant_iff [abs_def])
  then have "map normalize_header ?rel = map normalize_header ls"
    by (simp add: list_all2_map1 list_all2_map2 list_all2_eq)
  then have "set (map normalize_header ?rel) = normalize_header ` set ls" by simp
  also have "\<dots> = set REQUIRED_NORMALS" by (simp add: assms(3) REQUIRED_NORMALS_map)
  finally have "set REQUIRED_NORMALS \<subseteq> normalize_header ` set headers" by auto
  then have sub: "set REQUIRED_NORMALS \<subseteq> set (header_norms headers)"
    by (simp add: header_norms_def)
  then have m: "missing headers = []" by (simp add: missing_Nil_iff)
  have "dom (header_map headers |` set REQUIRED_NORMALS) = set REQUIRED_NORMALS"
    using sub by (auto simp: dom_header_map)
  then have c: "card (dom (header_map headers |` set REQUIRED_NORMALS)) = 7"
    by (simp add: card_REQUIRED_NORMALS)
  have e: "\<exists>i < length headers.
             header_map headers (normalize_header L) = Some i \<and> label_variant (headers ! i) L"
    if "L \<in> set REQUIRED_HEADERS" for L
  proof -
    from that sub have "normalize_header L \<in> set (header_norms headers)"
      by (auto simp: REQUIRED_NORMALS_map)
    from header_map_key [OF this] show ?thesis
      by (auto simp: label_variant_iff)
  qed
  have f: "card (dom (header_map headers)) = 7"
    if "\<forall>h \<in> set headers. normalize_header h \<in> set REQUIRED_NORMALS"
  proof -
    from that have "set (header_norms headers) \<subseteq> set REQUIRED_NORMALS"
      by (auto simp: header_norms_def)
    with sub have "dom (header_map headers) = set REQUIRED_NORMALS"
      by (auto simp: dom_header_map)
    then show ?thesis by (simp add: card_REQUIRED_NORMALS)
  qed
  from m c e f show ?thesis by blast
qed

theorem schema_match_permutation_witness:
  "missing [''answer'', ''OPTION-D'', ''Option C'', ''optionB'', ''Notes'', ''option a'',
            ''Question?'', ''DESCRIPTION''] = []
   \<and> card (dom (header_map [''answer'', ''OPTION-D'', ''Option C'', ''optionB'', ''Notes'',
            ''option a'', ''Question?'', ''DESCRIPTION''] |` set REQUIRED_NORMALS)) = 7"
proof -
  let ?hs = "[''answer'', ''OPTION-D'', ''Option C'', ''optionB'', ''Notes'', ''option a'',
            ''Question?'', ''DESCRIPTION'']"
  let ?ls = "[''Answer'', ''Option D'', ''Option C'', ''Option B'', ''Option A'', ''Question'',
            ''Description'']"
  have n: "normalize_header ''answer'' = ''answer''"
    "normalize_header ''OPTION-D'' = ''optiond''"
    "normalize_header ''optionB'' = ''optionb''"
    "normalize_header ''Notes'' = ''notes''"
    "normalize_header ''option a'' = ''optiona''"
    "normalize_header ''Question?'' = ''question''"
    "normalize_header ''DESCRIPTION'' = ''description''"
    by (simp_all add: text_defs)
  have R: "''question'' \<in> set REQUIRED_NORMALS" "''optiona'' \<in> set REQUIRED_NORMALS"
    "''optionb'' \<in> set REQUIRED_NORMALS" "''optionc'' \<in> set REQUIRED_NORMALS"
    "''optiond'' \<in> set REQUIRED_NORMALS" "''answer'' \<in> set REQUIRED_NORMALS"
    "''description'' \<in> set REQUIRED_NORMALS" "''notes'' \<notin> set REQUIRED_NORMALS"
    by (simp_all add: REQUIRED_NORMALS_map normalize_REQUIRED_HEADERS)
  have f: "filter (\<lambda>h. normalize_header h \<in> set REQUIRED_NORMALS) ?hs
     = [''answer'', ''OPTION-D'', ''Option C'', ''optionB'', ''option a'', ''Question?'',
        ''DESCRIPTION'']"
    by (simp add: R n normalize_labels)
  have a: "list_all2 label_variant
             (filter (\<lambda>h. normalize_header h \<in> set REQUIRED_NORMALS) ?hs) ?ls"
    unfolding f by (simp add: label_variant_iff n normalize_labels)
  have d: "distinct ?ls" by simp
  have s: "set ?ls = set REQUIRED_HEADERS" by (auto simp: REQUIRED_HEADERS_def)
  show ?thesis using schema_match_permutation [OF a d s] by simp
qed

section \<open>The loop over the data rows\<close>

lemma validate_row_skip:
  "validate_row headers n row = Inl msg \<Longrightarrow> skipped_row msg = Some n"
  by (auto simp: validate_row_def split: sum.splits prod.splits if_splits option.splits)

lemma row_step_effects:
  "fst (row_step send_poll headers n c row) = fst (row_step send_poll headers n 0 row)"
  by (simp add: row_step_def split: sum.splits)

lemma row_step_count:
  "snd (row_step send_poll headers n c row)
     = c + (if delivered send_poll headers (n, row) then 1 else 0)"
  by (simp add: row_step_def delivered_def split: sum.splits)

lemma row_step_one_outcome:
  "length (filter is_row_outcome (fst (row_step send_poll headers n c row))) = 1"
  by (auto simp: row_step_def dest: validate_row_skip split: sum.splits)

lemma row_step_outcomes_channel:
  "filter is_row_outcome (fst (row_step send_poll headers n c row))
     = filter is_row_outcome (fst (row_step send_poll' headers n c' row))"
  by (auto simp: row_step_def split: sum.splits)

lemma process_rows_effects:
  "fst (process_rows send_poll headers n c rows)
     = concat (map (\<lambda>(i, row). fst (row_step send_poll headers i 0 row)) (enumerate n rows))"
proof (induction rows arbitrary: n c)
  case Nil
  then show ?case by simp
next
  case (Cons row rows)
  show ?case
    using Cons.IH [of "Suc n" "snd (row_step send_poll headers n c row)"]
      row_step_effects [of send_poll headers n c row]
    by (simp add: split_beta)
qed

lemma process_rows_count:
  "snd (process_rows send_poll headers n c rows)
     = c + length (filter (delivered send_poll headers) (enumerate n rows))"
proof (induction rows arbitrary: n c)
  case Nil
  then show ?case by simp
next
  case (Cons row rows)
  show ?case
    using Cons.IH [of "Suc n" "snd (row_step send_poll headers n c row)"]
      row_step_count [of send_poll headers n c row]
    by (simp add: split_beta)
qed

lemma process_rows_outcomes:
  "length (filter is_row_outcome (fst (process_rows send_poll headers n c rows))) = length rows"
proof (induction rows arbitrary: n c)
  case Nil
  then show ?case by simp
next
  case (Cons row rows)
  show ?case
    using Cons.IH [of "Suc n" "snd (row_step send_poll headers n c row)"]
      row_step_one_outcome [of send_poll headers n c row]
    by (simp add: split_beta)
qed

lemma process_rows_outcomes_channel:
  "filter is_row_outcome (fst (process_rows send_poll headers n c rows))
     = filter is_row_outcome (fst (process_rows send_poll' headers n c' rows))"
proof (induction rows arbitrary: n c c')
  case Nil
  then show ?case by simp
next
  case (Cons row rows)
  show ?case
    using Cons.IH [of "Suc n" "snd (row_step send_poll headers n c row)"
        "snd (row_step send_poll' headers n c' row)"]
      row_step_outcomes_channel [of send_poll headers n c row send_poll' c']
    by (simp add: split_beta)
qed

lemma missing_Nil_headers: "missing headers = [] \<Longrightarrow> headers \<noteq> []"
  by (auto simp: missing_Nil_iff header_norms_def REQUIRED_NORMALS_map REQUIRED_HEADERS_def)

text \<open>A run whose header row matches and whose reader raises no error.\<close>

lemma process_csv_content_rows:
  assumes "csv_reader (sniffed_dialect sniff content) content = (headers # rest, None)"
    and "missing headers = []"
  shows "process_csv_content sniff send_poll content
     = (Reply Processing #
          fst (process_rows send_poll headers 1 0
                 (map (DictReader_row headers) (filter (\<lambda>row. row \<noteq> []) rest)))
          @ [Reply (Done (snd (process_rows send_poll headers 1 0
                 (map (DictReader_row headers) (filter (\<lambda>row. row \<noteq> []) rest)))))],
        Returned)"
proof -
  have h: "headers \<noteq> []" using assms(2) by (rule missing_Nil_headers)
  have D: "DictReader headers (headers # rest)
             = DictReader_row headers headers
                 # map (DictReader_row headers) (filter (\<lambda>row. row \<noteq> []) rest)"
    using h by (simp add: DictReader_def)
  show ?thesis
    by (simp add: process_csv_content_def Let_def assms D split_beta)
qed

lemma process_rows_accepted:
  "length (filter (delivered send_poll headers) (enumerate n rows))
     \<le> length (filter is_accepted (fst (process_rows send_poll headers n c rows)))"
proof (induction rows arbitrary: n c)
  case Nil
  then show ?case by simp
next
  case (Cons row rows)
  have "(if delivered send_poll headers (n, row) then 1 else 0)
          \<le> length (filter is_accepted (fst (row_step send_poll headers n c row)))"
    by (simp add: delivered_def row_step_def split: sum.splits)
  with Cons.IH [of "Suc n" "snd (row_step send_poll headers n c row)"]
  show ?case
    by (cases "delivered send_poll headers (n, row)") (simp_all add: split_beta)
qed

section \<open>Concrete runs\<close>

lemma missing_REQUIRED_HEADERS: "missing REQUIRED_HEADERS = []"
  by (simp add: missing_Nil_iff header_norms_def REQUIRED_NORMALS_map)

lemma read_rows_E_b:
  "csv_reader comma_dialect (header_line @ ''\<newline>'' @ row_E @ ''\<newline>'' @ row_b @ ''\<newline>'')
     = (REQUIRED_HEADERS
          # [ [''2+2=?'', ''1'', ''2'', ''3'', ''4'', ''E'', ''Basic math''],
             [''Capital of France?'', ''London'', ''Paris'', ''Rome'', ''Berlin'', ''b'', ''''] ],
        None)"
  by (simp add: header_line_def row_E_def row_b_def REQUIRED_HEADERS_def comma_dialect_def reader_defs)

lemma read_row_C:
  "csv_reader comma_dialect (header_line @ ''\<newline>'' @ row_C @ ''\<newline>'')
     = (REQUIRED_HEADERS # [ [''2+2=?'', ''1'', ''2'', ''3'', ''4'', ''C'', ''Basic math''] ], None)"
  by (simp add: header_line_def row_C_def REQUIRED_HEADERS_def comma_dialect_def reader_defs)

lemma sniff_comma_dialect: "sniffed_dialect sniff_comma content = comma_dialect"
  by (simp add: sniffed_dialect_def sniff_comma_def)

lemma validate_row_C:
  "validate_row REQUIRED_HEADERS n
     (DictReader_row REQUIRED_HEADERS [''2+2=?'', ''1'', ''2'', ''3'', ''4'', ''C'', ''Basic math''])
   = Inr \<lparr>poll_question = ''2+2=?'', poll_options = [''1'', ''2'', ''3'', ''4''],
          poll_correct_option_id = 2, poll_explanation = ''Basic math'',
          poll_is_anonymous = False\<rparr>"
proof -
  have s: "strip ''2+2=?'' = ''2+2=?''" "strip ''1'' = ''1''" "strip ''2'' = ''2''"
    "strip ''3'' = ''3''" "strip ''4'' = ''4''" "strip ''C'' = ''C''"
    "strip ''Basic math'' = ''Basic math''"
    by (simp_all add: strip_def py_isspace_def)
  have u: "upper ''C'' = [67]" by (simp add: upper_def py_upper_def)
  have e: "extract_row REQUIRED_HEADERS
      (DictReader_row REQUIRED_HEADERS [''2+2=?'', ''1'', ''2'', ''3'', ''4'', ''C'', ''Basic math''])
      = Inr (''2+2=?'', [''1'', ''2'', ''3'', ''4''], [67], ''Basic math'')"
    by (simp add: extract_row_REQUIRED s u)
  have q: "''2+2=?'' \<noteq> []" "\<not> list_ex (\<lambda>opt. opt = []) [''1'', ''2'', ''3'', ''4'']"
    "mapper [67] = Some 2"
    by (simp_all add: mapper_eq)
  show ?thesis using validate_row_accept [OF e q, of n] by simp
qed

section \<open>One outcome for every data row\<close>

lemma row_step_outcome:
  "filter is_row_outcome (fst (row_step send_poll headers n c row))
     = [case validate_row headers n row of Inl msg \<Rightarrow> Reply msg | Inr p \<Rightarrow> SendPoll p]"
  by (auto simp: row_step_def dest: validate_row_skip split: sum.splits)

lemma row_step_expand:
  "fst (row_step send_poll headers n c row)
     = (case validate_row headers n row of
          Inl msg \<Rightarrow> [Reply msg]
        | Inr p \<Rightarrow>
            if send_poll n p then [SendPoll p]
            else [SendPoll p, Reply (SendError n (take 60 (poll_question p)))])"
  by (simp add: row_step_def split: sum.splits)

lemma process_rows_outcome_list:
  "filter is_row_outcome (fst (process_rows send_poll headers n c rows))
     = map (\<lambda>(i, row). case validate_row headers i row of
                           Inl msg \<Rightarrow> Reply msg | Inr p \<Rightarrow> SendPoll p)
         (enumerate n rows)"
proof (induction rows arbitrary: n c)
  case Nil
  then show ?case by simp
next
  case (Cons row rows)
  show ?case
    using Cons.IH [of "Suc n" "snd (row_step send_poll headers n c row)"]
      row_step_outcome [of send_poll headers n c row]
    by (simp add: split_beta)
qed

lemma process_rows_expand:
  "fst (process_rows send_poll headers n c rows)
     = concat (map (\<lambda>(i, row).
         case validate_row headers i row of
           Inl msg \<Rightarrow> [Reply msg]
         | Inr p \<Rightarrow>
             if send_poll i p then [SendPoll p]
             else [SendPoll p, Reply (SendError i (take 60 (poll_question p)))])
       (enumerate n rows))"
  unfolding process_rows_effects row_step_expand ..

lemma process_csv_content_reader_error:
  assumes "csv_reader (sniffed_dialect sniff content) content = (headers # rest, Some e)"
    and "missing headers = []"
  shows "process_csv_content sniff send_poll content
     = (Reply Processing #
          fst (process_rows send_poll headers 1 0
                 (map (DictReader_row headers) (filter (\<lambda>row. row \<noteq> []) rest))),
        Raised e)"
proof -
  have h: "headers \<noteq> []" using assms(2) by (rule missing_Nil_headers)
  have D: "DictReader headers (headers # rest)
             = DictReader_row headers headers
                 # map (DictReader_row headers) (filter (\<lambda>row. row \<noteq> []) rest)"
    using h by (simp add: DictReader_def)
  show ?thesis
    by (simp add: process_csv_content_def Let_def assms D split_beta)
qed

text \<open>
  Where the reader raises no error, every data row has its outcome: the effects are the
  progress reply, then for each data row in input order, validated with the row numbers
  1, 2, 3 and so on, either its skip reply or its poll (followed by the error reply when
  the delivery fails), then the summary. The outcomes of the run are, row by row, the
  skip reply or the poll that the validation of the row with its number gives, and a skip
  reply carries that number.
\<close>

lemma outcomes_without_reader_error:
  assumes "csv_reader (sniffed_dialect sniff content) content = (headers # rest, None)"
    and "missing headers = []"
    and "data = map (DictReader_row headers) (filter (\<lambda>row. row \<noteq> []) rest)"
  shows "process_csv_content sniff send_poll content
           = (Reply Processing
                # concat (map (\<lambda>(n, row).
                    case validate_row headers n row of
                      Inl msg \<Rightarrow> [Reply msg]
                    | Inr p \<Rightarrow>
                        if send_poll n p then [SendPoll p]
                        else [SendPoll p, Reply (SendError n (take 60 (poll_question p)))])
                  (enumerate 1 data))
                @ [Reply (Done (length (filter (delivered send_poll headers) (enumerate 1 data))))],
              Returned)"
    and "filter is_row_outcome (fst (process_csv_content sniff send_poll content))
           = map (\<lambda>(n, row). case validate_row headers n row of
                                 Inl msg \<Rightarrow> Reply msg | Inr p \<Rightarrow> SendPoll p)
               (enumerate 1 data)"
    and "map fst (enumerate 1 data) = [1..<1 + length data]"
    and "\<forall>(n, row) \<in> set (enumerate 1 data).
           \<forall>msg. validate_row headers n row = Inl msg \<longrightarrow> skipped_row msg = Some n"
proof -
  note p = process_csv_content_rows [OF assms(1,2), of send_poll, folded assms(3)]
  show "process_csv_content sniff send_poll content
           = (Reply Processing
                # concat (map (\<lambda>(n, row).
                    case validate_row headers n row of
                      Inl msg \<Rightarrow> [Reply msg]
                    | Inr p \<Rightarrow>
                        if send_poll n p then [SendPoll p]
                        else [SendPoll p, Reply (SendError n (take 60 (poll_question p)))])
                  (enumerate 1 data))
                @ [Reply (Done (length (filter (delivered send_poll headers) (enumerate 1 data))))],
              Returned)"
    unfolding p process_rows_expand process_rows_count by simp
  show "filter is_row_outcome (fst (process_csv_content sniff send_poll content))
           = map (\<lambda>(n, row). case validate_row headers n row of
                                 Inl msg \<Rightarrow> Reply msg | Inr p \<Rightarrow> SendPoll p)
               (enumerate 1 data)"
    unfolding p by (simp add: process_rows_outcome_list)
  show "map fst (enumerate 1 data) = [1..<1 + length data]"
    by (simp add: enumerate_eq_zip)
  show "\<forall>(n, row) \<in> set (enumerate 1 data).
           \<forall>msg. validate_row headers n row = Inl msg \<longrightarrow> skipped_row msg = Some n"
    using validate_row_skip by auto
qed

text \<open>
  Where the reader raises an error at some record, the rows it has yielded before have
  their outcomes, and the error leaves the function: the rows that follow in the text
  have no outcome and there is no summary.
\<close>

lemma outcomes_until_reader_error:
  assumes "csv_reader (sniffed_dialect sniff content) content = (headers # rest, Some e)"
    and "missing headers = []"
    and "data = map (DictReader_row headers) (filter (\<lambda>row. row \<noteq> []) rest)"
  shows "process_csv_content sniff send_poll content
           = (Reply Processing
                # concat (map (\<lambda>(n, row).
                    case validate_row headers n row of
                      Inl msg \<Rightarrow> [Reply msg]
                    | Inr p \<Rightarrow>
                        if send_poll n p then [SendPoll p]
                        else [SendPoll p, Reply (SendError n (take 60 (poll_question p)))])
                  (enumerate 1 data)),
              Raised e)"
  unfolding process_csv_content_reader_error [OF assms(1,2), of send_poll, folded assms(3)]
    process_rows_expand by simp

lemma read_rows_C_b:
  "csv_reader comma_dialect (header_line @ ''\<newline>'' @ row_C @ ''\<newline>'' @ row_b @ ''\<newline>'')
     = (REQUIRED_HEADERS
          # [ [''2+2=?'', ''1'', ''2'', ''3'', ''4'', ''C'', ''Basic math''],
             [''Capital of France?'', ''London'', ''Paris'', ''Rome'', ''Berlin'', ''b'', ''''] ],
        None)"
  by (simp add: header_line_def row_C_def row_b_def REQUIRED_HEADERS_def comma_dialect_def
      reader_defs)

lemma read_rows_bare_cr:
  "csv_reader comma_dialect
     (header_line @ ''\<newline>'' @ row_C @ ''\<newline>'' @ row_bare_cr @ ''\<newline>'' @ row_b
        @ ''\<newline>'')
     = (REQUIRED_HEADERS # [ [''2+2=?'', ''1'', ''2'', ''3'', ''4'', ''C'', ''Basic math''] ],
        Some NewlineInUnquotedField)"
  by (simp add: header_line_def row_C_def row_b_def row_bare_cr_def REQUIRED_HEADERS_def
      comma_dialect_def reader_defs)

lemma validate_row_b:
  "validate_row REQUIRED_HEADERS n
     (DictReader_row REQUIRED_HEADERS
        [''Capital of France?'', ''London'', ''Paris'', ''Rome'', ''Berlin'', ''b'', ''''])
   = Inr \<lparr>poll_question = ''Capital of France?'',
          poll_options = [''London'', ''Paris'', ''Rome'', ''Berlin''],
          poll_correct_option_id = 1, poll_explanation = [],
          poll_is_anonymous = False\<rparr>"
proof -
  have s: "strip ''Capital of France?'' = ''Capital of France?''" "strip ''London'' = ''London''"
    "strip ''Paris'' = ''Paris''" "strip ''Rome'' = ''Rome''" "strip ''Berlin'' = ''Berlin''"
    "strip ''b'' = ''b''" "strip '''' = ''''"
    by (simp_all add: strip_def py_isspace_def)
  have u: "upper ''b'' = [66]" by (simp add: upper_def py_upper_def)
  have e: "extract_row REQUIRED_HEADERS
      (DictReader_row REQUIRED_HEADERS
         [''Capital of France?'', ''London'', ''Paris'', ''Rome'', ''Berlin'', ''b'', ''''])
      = Inr (''Capital of France?'', [''London'', ''Paris'', ''Rome'', ''Berlin''], [66], [])"
    by (simp add: extract_row_REQUIRED s u)
  have q: "''Capital of France?'' \<noteq> []"
    "\<not> list_ex (\<lambda>opt. opt = []) [''London'', ''Paris'', ''Rome'', ''Berlin'']"
    "mapper [66] = Some 1"
    by (simp_all add: mapper_eq)
  show ?thesis using validate_row_accept [OF e q, of n] by simp
qed

lemma validate_row_E:
  "validate_row REQUIRED_HEADERS n
     (DictReader_row REQUIRED_HEADERS [''2+2=?'', ''1'', ''2'', ''3'', ''4'', ''E'', ''Basic math''])
   = Inl (SkipInvalidAnswer n [69] ''2+2=?'')"
proof -
  have s: "strip ''2+2=?'' = ''2+2=?''" "strip ''1'' = ''1''" "strip ''2'' = ''2''"
    "strip ''3'' = ''3''" "strip ''4'' = ''4''" "strip ''E'' = ''E''"
    "strip ''Basic math'' = ''Basic math''"
    by (simp_all add: strip_def py_isspace_def)
  have u: "upper ''E'' = [69]" by (simp add: upper_def py_upper_def)
  have e: "extract_row REQUIRED_HEADERS
      (DictReader_row REQUIRED_HEADERS [''2+2=?'', ''1'', ''2'', ''3'', ''4'', ''E'', ''Basic math''])
      = Inr (''2+2=?'', [''1'', ''2'', ''3'', ''4''], [69], ''Basic math'')"
    by (simp add: extract_row_REQUIRED s u)
  have q: "''2+2=?'' \<noteq> []" "\<not> list_ex (\<lambda>opt. opt = []) [''1'', ''2'', ''3'', ''4'']"
    "mapper [69] = None"
    by (simp_all add: mapper_eq)
  show ?thesis using validate_row_invalid_answer [OF e q, of n] by simp
qed

text \<open>
  A run in which the first data row is skipped and the second accepted: the skip reply
  carries the number 1, the poll is that of the second row, the summary counts it.
\<close>

lemma skip_then_accept_example:
  "process_csv_content sniff_comma send_ok
     (header_line @ ''\<newline>'' @ row_E @ ''\<newline>'' @ row_b @ ''\<newline>'')
   = ([Reply Processing,
       Reply (SkipInvalidAnswer 1 [69] ''2+2=?''),
       SendPoll \<lparr>poll_question = ''Capital of France?'',
                 poll_options = [''London'', ''Paris'', ''Rome'', ''Berlin''],
                 poll_correct_option_id = 1, poll_explanation = [],
                 poll_is_anonymous = False\<rparr>,
       Reply (Done 1)], Returned)"
proof -
  let ?T = "header_line @ ''\<newline>'' @ row_E @ ''\<newline>'' @ row_b @ ''\<newline>''"
  have r: "csv_reader (sniffed_dialect sniff_comma ?T) ?T
     = (REQUIRED_HEADERS
          # [ [''2+2=?'', ''1'', ''2'', ''3'', ''4'', ''E'', ''Basic math''],
             [''Capital of France?'', ''London'', ''Paris'', ''Rome'', ''Berlin'', ''b'', ''''] ],
        None)"
    by (simp only: sniff_comma_dialect read_rows_E_b)
  show ?thesis
    unfolding process_csv_content_rows [OF r missing_REQUIRED_HEADERS]
    by (simp add: row_step_def validate_row_E validate_row_b send_ok_def)
qed

text \<open>
  C9 fails on the code. The loop body catches what the extraction of a row raises, but
  the \<open>for\<close> statement itself asks the reader for the next row outside every \<open>try\<close>.
  With a carriage return inside a cell of the second data row, the reader raises
  \<open>csv.Error\<close> there: the first row has its poll, the malformed row and the valid row
  after it have no outcome, and the function is left without a summary. Without the
  malformed row, both valid rows have their polls and the summary counts two.
\<close>

theorem malformed_row_aborts_batch:
  "process_csv_content sniff_comma send_ok
     (header_line @ ''\<newline>'' @ row_C @ ''\<newline>'' @ row_bare_cr @ ''\<newline>'' @ row_b
        @ ''\<newline>'')
   = ([Reply Processing,
       SendPoll \<lparr>poll_question = ''2+2=?'', poll_options = [''1'', ''2'', ''3'', ''4''],
                 poll_correct_option_id = 2, poll_explanation = ''Basic math'',
                 poll_is_anonymous = False\<rparr>],
      Raised NewlineInUnquotedField)
   \<and> process_csv_content sniff_comma send_ok
     (header_line @ ''\<newline>'' @ row_C @ ''\<newline>'' @ row_b @ ''\<newline>'')
   = ([Reply Processing,
       SendPoll \<lparr>poll_question = ''2+2=?'', poll_options = [''1'', ''2'', ''3'', ''4''],
                 poll_correct_option_id = 2, poll_explanation = ''Basic math'',
                 poll_is_anonymous = False\<rparr>,
       SendPoll \<lparr>poll_question = ''Capital of France?'',
                 poll_options = [''London'', ''Paris'', ''Rome'', ''Berlin''],
                 poll_correct_option_id = 1, poll_explanation = [],
                 poll_is_anonymous = False\<rparr>,
       Reply (Done 2)], Returned)"
proof -
  let ?B = "header_line @ ''\<newline>'' @ row_C @ ''\<newline>'' @ row_bare_cr @ ''\<newline>'' @ row_b
              @ ''\<newline>''"
  let ?G = "header_line @ ''\<newline>'' @ row_C @ ''\<newline>'' @ row_b @ ''\<newline>''"
  have rb: "csv_reader (sniffed_dialect sniff_comma ?B) ?B
     = (REQUIRED_HEADERS # [ [''2+2=?'', ''1'', ''2'', ''3'', ''4'', ''C'', ''Basic math''] ],
        Some NewlineInUnquotedField)"
    by (simp only: sniff_comma_dialect read_rows_bare_cr)
  have rg: "csv_reader (sniffed_dialect sniff_comma ?G) ?G
     = (REQUIRED_HEADERS
          # [ [''2+2=?'', ''1'', ''2'', ''3'', ''4'', ''C'', ''Basic math''],
             [''Capital of France?'', ''London'', ''Paris'', ''Rome'', ''Berlin'', ''b'', ''''] ],
        None)"
    by (simp only: sniff_comma_dialect read_rows_C_b)
  have b: "process_csv_content sniff_comma send_ok ?B
     = ([Reply Processing,
         SendPoll \<lparr>poll_question = ''2+2=?'', poll_options = [''1'', ''2'', ''3'', ''4''],
                   poll_correct_option_id = 2, poll_explanation = ''Basic math'',
                   poll_is_anonymous = False\<rparr>],
        Raised NewlineInUnquotedField)"
    unfolding process_csv_content_reader_error [OF rb missing_REQUIRED_HEADERS]
    by (simp add: row_step_def validate_row_C send_ok_def)
  have g: "process_csv_content sniff_comma send_ok ?G
     = ([Reply Processing,
         SendPoll \<lparr>poll_question = ''2+2=?'', poll_options = [''1'', ''2'', ''3'', ''4''],
                   poll_correct_option_id = 2, poll_explanation = ''Basic math'',
                   poll_is_anonymous = False\<rparr>,
         SendPoll \<lparr>poll_question = ''Capital of France?'',
                   poll_options = [''London'', ''Paris'', ''Rome'', ''Berlin''],
                   poll_correct_option_id = 1, poll_explanation = [],
                   poll_is_anonymous = False\<rparr>,
         Reply (Done 2)], Returned)"
    unfolding process_csv_content_rows [OF rg missing_REQUIRED_HEADERS]
    by (simp add: row_step_def validate_row_C validate_row_b send_ok_def)
  show ?thesis using b g by (rule conjI)
qed

section \<open>The summary count\<close>

text \<open>
  C2, as the code has it: the counter is incremented after \<open>send_poll\<close> has returned,
  so the summary reports the number of accepted rows whose poll was delivered, which is
  at most the number of accepted rows. The outcomes of the rows (the polls and the skip
  replies with their row numbers) are the same whatever the channel does, and the run
  returns with its summary.
\<close>

theorem summary_counts_deliveries:
  assumes "csv_reader (sniffed_dialect sniff content) content = (headers # rest, None)"
    and "missing headers = []"
    and "data = map (DictReader_row headers) (filter (\<lambda>row. row \<noteq> []) rest)"
  shows "(\<exists>effs. process_csv_content sniff send_poll content
            = (effs @ [Reply (Done (length (filter (delivered send_poll headers)
                                             (enumerate 1 data))))], Returned))
       \<and> length (filter (delivered send_poll headers) (enumerate 1 data))
           \<le> length (filter is_accepted (fst (process_csv_content sniff send_poll content)))
       \<and> filter is_row_outcome (fst (process_csv_content sniff send_poll content))
           = filter is_row_outcome (fst (process_csv_content sniff send_poll' content))"
proof -
  note p = process_csv_content_rows [OF assms(1,2), folded assms(3)]
  have a: "\<exists>effs. process_csv_content sniff send_poll content
            = (effs @ [Reply (Done (length (filter (delivered send_poll headers)
                                             (enumerate 1 data))))], Returned)"
    unfolding p [of send_poll] process_rows_count
    by (intro exI [of _ "Reply Processing # fst (process_rows send_poll headers 1 0 data)"]) simp
  have b: "length (filter (delivered send_poll headers) (enumerate 1 data))
           \<le> length (filter is_accepted (fst (process_csv_content sniff send_poll content)))"
    unfolding p [of send_poll] using process_rows_accepted [of send_poll headers 1 data 0]
    by simp
  have c: "filter is_row_outcome (fst (process_csv_content sniff send_poll content))
           = filter is_row_outcome (fst (process_csv_content sniff send_poll' content))"
    unfolding p [of send_poll] p [of send_poll']
    using process_rows_outcomes_channel [of send_poll headers 1 0 data send_poll' 0]
    by simp
  from a b c show ?thesis by blast
qed

theorem summary_counts_deliveries_witness:
  "filter is_row_outcome
     (fst (process_csv_content sniff_comma send_raises
             (header_line @ ''\<newline>'' @ row_E @ ''\<newline>'' @ row_b @ ''\<newline>'')))
   = filter is_row_outcome
     (fst (process_csv_content sniff_comma send_ok
             (header_line @ ''\<newline>'' @ row_E @ ''\<newline>'' @ row_b @ ''\<newline>'')))"
proof -
  let ?T = "header_line @ ''\<newline>'' @ row_E @ ''\<newline>'' @ row_b @ ''\<newline>''"
  have r: "csv_reader (sniffed_dialect sniff_comma ?T) ?T
     = (REQUIRED_HEADERS
          # [ [''2+2=?'', ''1'', ''2'', ''3'', ''4'', ''E'', ''Basic math''],
             [''Capital of France?'', ''London'', ''Paris'', ''Rome'', ''Berlin'', ''b'', ''''] ],
        None)"
    by (simp only: sniff_comma_dialect read_rows_E_b)
  show ?thesis
    using summary_counts_deliveries [OF r missing_REQUIRED_HEADERS refl, of send_raises send_ok]
    by blast
qed

text \<open>
  C2 as stated fails: with one valid row and a channel that raises, the row is accepted
  (its poll is handed to \<open>send_poll\<close>) and the summary reports 0.
\<close>

theorem summary_count_counterexample:
  "process_csv_content sniff_comma send_raises (header_line @ ''\<newline>'' @ row_C @ ''\<newline>'')
     = ([Reply Processing,
         SendPoll \<lparr>poll_question = ''2+2=?'', poll_options = [''1'', ''2'', ''3'', ''4''],
                   poll_correct_option_id = 2, poll_explanation = ''Basic math'',
                   poll_is_anonymous = False\<rparr>,
         Reply (SendError 1 ''2+2=?''),
         Reply (Done 0)], Returned)
   \<and> length (filter is_accepted
        (fst (process_csv_content sniff_comma send_raises
                (header_line @ ''\<newline>'' @ row_C @ ''\<newline>'')))) = 1"
proof -
  let ?T = "header_line @ ''\<newline>'' @ row_C @ ''\<newline>''"
  have r: "csv_reader (sniffed_dialect sniff_comma ?T) ?T
     = (REQUIRED_HEADERS # [ [''2+2=?'', ''1'', ''2'', ''3'', ''4'', ''C'', ''Basic math''] ], None)"
    by (simp only: sniff_comma_dialect read_row_C)
  have p: "process_csv_content sniff_comma send_raises ?T
     = ([Reply Processing,
         SendPoll \<lparr>poll_question = ''2+2=?'', poll_options = [''1'', ''2'', ''3'', ''4''],
                   poll_correct_option_id = 2, poll_explanation = ''Basic math'',
                   poll_is_anonymous = False\<rparr>,
         Reply (SendError 1 ''2+2=?''),
         Reply (Done 0)], Returned)"
    unfolding process_csv_content_rows [OF r missing_REQUIRED_HEADERS]
    by (simp add: row_step_def validate_row_C send_raises_def)
  show ?thesis unfolding p by simp
qed

section \<open>Empty lines among the data rows\<close>

lemma readlines_newline_append:
  "readlines acc (xs @ CHR 0x0A # ys) = readlines acc (xs @ [CHR 0x0A]) @ readlines [] ys"
proof (induction xs arbitrary: acc)
  case Nil
  show ?case by simp
next
  case (Cons c cs)
  show ?case
  proof (cases "c = CHR 0x0A")
    case True
    have "readlines acc ((c # cs) @ CHR 0x0A # ys)
            = (acc @ [c]) # readlines [] (cs @ CHR 0x0A # ys)"
      using True by simp
    also have "\<dots> = (acc @ [c]) # (readlines [] (cs @ [CHR 0x0A]) @ readlines [] ys)"
      by (simp only: Cons.IH)
    also have "\<dots> = readlines acc ((c # cs) @ [CHR 0x0A]) @ readlines [] ys"
      using True by simp
    finally show ?thesis .
  next
    case False
    have "readlines acc ((c # cs) @ CHR 0x0A # ys)
            = readlines (acc @ [c]) (cs @ CHR 0x0A # ys)"
      using False by simp
    also have "\<dots> = readlines (acc @ [c]) (cs @ [CHR 0x0A]) @ readlines [] ys"
      by (simp only: Cons.IH)
    also have "\<dots> = readlines acc ((c # cs) @ [CHR 0x0A]) @ readlines [] ys"
      using False by simp
    finally show ?thesis .
  qed
qed

lemma StringIO_lines_append:
  "StringIO_lines (pre @ CHR 0x0A # post)
     = StringIO_lines (pre @ [CHR 0x0A]) @ StringIO_lines post"
  unfolding StringIO_lines_def by (rule readlines_newline_append)

lemma reader_lines_append:
  "reader_lines d r (ls1 @ ls2) =
     (case reader_lines d r ls1 of
        (rows1, Inl e) \<Rightarrow> (rows1, Inl e)
      | (rows1, Inr r1) \<Rightarrow> (case reader_lines d r1 ls2 of (rows2, x) \<Rightarrow> (rows1 @ rows2, x)))"
proof (induction ls1 arbitrary: r)
  case Nil
  then show ?case by (simp split: prod.splits)
next
  case (Cons l ls1)
  show ?case
  proof (cases "parse_line d r l")
    case (Inl e)
    then show ?thesis by simp
  next
    case (Inr r')
    show ?thesis
    proof (cases "state r' = START_RECORD")
      case True
      with Inr Cons.IH [of parse_reset] show ?thesis
        by (simp split: prod.splits sum.splits)
    next
      case False
      with Inr Cons.IH [of r'] show ?thesis by simp
    qed
  qed
qed

lemma reader_lines_blank:
  "reader_lines d parse_reset [ [CHR 0x0A] ] = ([ [] ], Inr parse_reset)"
  "reader_lines d parse_reset [ [CHR 0x0D, CHR 0x0A] ] = ([ [] ], Inr parse_reset)"
  by (simp_all add: parse_reset_def parse_process_char_def is_newline_def)

lemma StringIO_lines_blank:
  "StringIO_lines (CHR 0x0A # post) = [CHR 0x0A] # StringIO_lines post"
  "StringIO_lines (CHR 0x0D # CHR 0x0A # post) = [CHR 0x0D, CHR 0x0A] # StringIO_lines post"
  by (simp_all add: StringIO_lines_def)

lemma reader_rows_Cons_reset:
  assumes "reader_lines d parse_reset [l] = ([row], Inr parse_reset)"
  shows "reader_rows d parse_reset (l # ls)
           = (row # fst (reader_rows d parse_reset ls), snd (reader_rows d parse_reset ls))"
proof -
  obtain rows2 x where p: "reader_lines d parse_reset ls = (rows2, x)"
    by (cases "reader_lines d parse_reset ls")
  have a: "reader_lines d parse_reset (l # ls) = (row # rows2, x)"
    using reader_lines_append [of d parse_reset "[l]" ls]
    by (simp add: assms p del: reader_lines.simps)
  show ?thesis
    by (cases x) (simp_all add: reader_rows_def a p del: reader_lines.simps)
qed

text \<open>An empty line read at the start of a record adds the row \<open>[]\<close> and nothing else.\<close>

lemma csv_reader_blank:
  assumes "blank = [CHR 0x0A] \<or> blank = [CHR 0x0D, CHR 0x0A]"
  shows "csv_reader d (blank @ post) = ([] # fst (csv_reader d post), snd (csv_reader d post))"
  using assms reader_rows_Cons_reset [OF reader_lines_blank(1), of d "StringIO_lines post"]
    reader_rows_Cons_reset [OF reader_lines_blank(2), of d "StringIO_lines post"]
  by (auto simp: csv_reader_def StringIO_lines_blank)

lemma csv_reader_at_record_start:
  assumes "reader_lines d parse_reset (StringIO_lines (pre @ [CHR 0x0A])) = (rows1, Inr parse_reset)"
  shows "csv_reader d (pre @ [CHR 0x0A] @ post)
           = (rows1 @ fst (csv_reader d post), snd (csv_reader d post))"
proof -
  have l: "StringIO_lines (pre @ CHR 0x0A # post)
         = StringIO_lines (pre @ [CHR 0x0A]) @ StringIO_lines post"
    by (rule StringIO_lines_append)
  obtain rows2 x where p: "reader_lines d parse_reset (StringIO_lines post) = (rows2, x)"
    by (cases "reader_lines d parse_reset (StringIO_lines post)")
  have b: "reader_lines d parse_reset (StringIO_lines (pre @ CHR 0x0A # post))
         = (rows1 @ rows2, x)"
    unfolding l
    by (simp add: reader_lines_append [of d parse_reset "StringIO_lines (pre @ [CHR 0x0A])"]
        assms p del: reader_lines.simps)
  show ?thesis
    by (cases x) (simp_all add: csv_reader_def reader_rows_def b p)
qed

lemma process_csv_content_filter:
  assumes "csv_reader (sniffed_dialect sniff c1) c1 = (headers # rest1, err)"
    and "csv_reader (sniffed_dialect sniff c2) c2 = (headers # rest2, err)"
    and "filter (\<lambda>row. row \<noteq> []) rest1 = filter (\<lambda>row. row \<noteq> []) rest2"
  shows "process_csv_content sniff send_poll c1 = process_csv_content sniff send_poll c2"
  by (simp add: process_csv_content_def Let_def assms DictReader_def)

text \<open>
  C10: let the text up to a line end be read as the header row and complete records, so
  that the reader stands at the start of a record. An empty line (a line feed alone, or
  carriage return and line feed) put at that place makes the reader yield one more row,
  the empty row \<open>[]\<close>, and changes nothing else; the \<open>DictReader\<close> passes over it, and
  the whole run (effects, row numbers, summary) is the run of the text without the empty
  line. The sniffer sees a different sample in the two texts: the dialects it gives are
  taken to read the header and the records alike.
\<close>

theorem blank_line_dropped:
  assumes "blank = [CHR 0x0A] \<or> blank = [CHR 0x0D, CHR 0x0A]"
    and "sniffed_dialect sniff (pre @ [CHR 0x0A] @ blank @ post) = d"
    and "sniffed_dialect sniff (pre @ [CHR 0x0A] @ post) = d'"
    and "reader_lines d parse_reset (StringIO_lines (pre @ [CHR 0x0A]))
           = (headers # rows1, Inr parse_reset)"
    and "reader_lines d' parse_reset (StringIO_lines (pre @ [CHR 0x0A]))
           = (headers # rows1, Inr parse_reset)"
    and "csv_reader d post = csv_reader d' post"
  shows "(\<exists>rows2 err.
            csv_reader d (pre @ [CHR 0x0A] @ blank @ post) = (headers # rows1 @ [] # rows2, err)
          \<and> csv_reader d' (pre @ [CHR 0x0A] @ post) = (headers # rows1 @ rows2, err))
       \<and> process_csv_content sniff send_poll (pre @ [CHR 0x0A] @ blank @ post)
           = process_csv_content sniff send_poll (pre @ [CHR 0x0A] @ post)"
proof -
  obtain rows2 err where p: "csv_reader d' post = (rows2, err)"
    by (cases "csv_reader d' post")
  have a: "csv_reader d (pre @ [CHR 0x0A] @ blank @ post) = (headers # rows1 @ [] # rows2, err)"
    using csv_reader_at_record_start [OF assms(4), of "blank @ post"]
    by (simp add: csv_reader_blank [OF assms(1)] assms(6) p)
  have b: "csv_reader d' (pre @ [CHR 0x0A] @ post) = (headers # rows1 @ rows2, err)"
    using csv_reader_at_record_start [OF assms(5), of post] by (simp add: p)
  have "process_csv_content sniff send_poll (pre @ [CHR 0x0A] @ blank @ post)
           = process_csv_content sniff send_poll (pre @ [CHR 0x0A] @ post)"
  proof (rule process_csv_content_filter)
    show "csv_reader (sniffed_dialect sniff (pre @ [CHR 0x0A] @ blank @ post))
            (pre @ [CHR 0x0A] @ blank @ post) = (headers # rows1 @ [] # rows2, err)"
      by (simp only: assms(2) a)
    show "csv_reader (sniffed_dialect sniff (pre @ [CHR 0x0A] @ post)) (pre @ [CHR 0x0A] @ post)
            = (headers # rows1 @ rows2, err)"
      by (simp only: assms(3) b)
    show "filter (\<lambda>row. row \<noteq> []) (rows1 @ [] # rows2)
             = filter (\<lambda>row. row \<noteq> []) (rows1 @ rows2)"
      by simp
  qed
  with a b show ?thesis by blast
qed

theorem blank_line_dropped_witness:
  "process_csv_content sniff_comma send_ok
     ((header_line @ ''\<newline>'' @ row_E) @ ''\<newline>'' @ ''\<newline>'' @ (row_b @ ''\<newline>''))
   = process_csv_content sniff_comma send_ok
     ((header_line @ ''\<newline>'' @ row_E) @ ''\<newline>'' @ (row_b @ ''\<newline>''))"
proof -
  have r: "reader_lines comma_dialect parse_reset
             (StringIO_lines ((header_line @ ''\<newline>'' @ row_E) @ ''\<newline>''))
           = (REQUIRED_HEADERS # [ [''2+2=?'', ''1'', ''2'', ''3'', ''4'', ''E'', ''Basic math''] ],
              Inr parse_reset)"
    by (simp add: header_line_def row_E_def REQUIRED_HEADERS_def comma_dialect_def
        StringIO_lines_def parse_reset_def parse_process_char_def start_field_def
        parse_add_char_def parse_save_field_def is_newline_def field_limit_def)
  have b: "''\<newline>'' = [CHR 0x0A] \<or> ''\<newline>'' = [CHR 0x0D, CHR 0x0A]" by simp
  show ?thesis
    using blank_line_dropped [OF b sniff_comma_dialect sniff_comma_dialect r r refl,
        where post = "row_b @ ''\<newline>''" and send_poll = send_ok]
    by simp
qed

section \<open>Further concrete runs\<close>

text \<open>A line of spaces is not an empty line: it is a row of one cell, and it is numbered.\<close>

lemma spaces_line_numbered:
  "process_csv_content sniff_raises send_ok
     (header_line @ ''\<newline>'' @ ''   '' @ ''\<newline>'' @ row_C @ ''\<newline>'')
   = ([Reply Processing, Reply (SkipEmptyQuestion 1),
       SendPoll \<lparr>poll_question = ''2+2=?'', poll_options = [''1'', ''2'', ''3'', ''4''],
                 poll_correct_option_id = 2, poll_explanation = ''Basic math'',
                 poll_is_anonymous = False\<rparr>,
       Reply (Done 1)], Returned)"
proof -
  let ?T = "header_line @ ''\<newline>'' @ ''   '' @ ''\<newline>'' @ row_C @ ''\<newline>''"
  have r: "csv_reader (sniffed_dialect sniff_raises ?T) ?T
     = (REQUIRED_HEADERS
          # [ [''   ''], [''2+2=?'', ''1'', ''2'', ''3'', ''4'', ''C'', ''Basic math''] ], None)"
    by (simp add: sniffed_dialect_def sniff_raises_def header_line_def row_C_def
        REQUIRED_HEADERS_def csv_excel_def reader_defs)
  have e: "\<exists>x. extract_row REQUIRED_HEADERS (DictReader_row REQUIRED_HEADERS [''   ''])
             = Inr ([], x)"
    apply (simp add: extract_row_def and_then_def normalize_labels get_from_row_def
        header_map_REQUIRED)
    apply (simp add: REQUIRED_HEADERS_def DictReader_row_def dict_of_def)
    apply (simp add: strip_def py_isspace_def)
    done
  then have v: "validate_row REQUIRED_HEADERS (Suc 0) (DictReader_row REQUIRED_HEADERS [''   ''])
             = Inl (SkipEmptyQuestion (Suc 0))"
    by (auto simp: validate_row_def)
  show ?thesis
    unfolding process_csv_content_rows [OF r missing_REQUIRED_HEADERS]
    by (simp add: row_step_def v validate_row_C send_ok_def)
qed

text \<open>The example of the specification, with the dialect the sniffer infers from it.\<close>

lemma end_to_end_example:
  "process_csv_content sniff_comma send_ok
     (header_line @ ''\<newline>'' @ ''2+2=?,1,2,3,4,C,'' @ [CHR 0x22] @ ''Basic math'' @ [CHR 0x22]
        @ ''\<newline>'' @ row_b @ ''\<newline>'')
   = ([Reply Processing,
       SendPoll \<lparr>poll_question = ''2+2=?'', poll_options = [''1'', ''2'', ''3'', ''4''],
                 poll_correct_option_id = 2, poll_explanation = ''Basic math'',
                 poll_is_anonymous = False\<rparr>,
       SendPoll \<lparr>poll_question = ''Capital of France?'',
                 poll_options = [''London'', ''Paris'', ''Rome'', ''Berlin''],
                 poll_correct_option_id = 1, poll_explanation = [],
                 poll_is_anonymous = False\<rparr>,
       Reply (Done 2)], Returned)"
proof -
  let ?T = "header_line @ ''\<newline>'' @ ''2+2=?,1,2,3,4,C,'' @ [CHR 0x22] @ ''Basic math''
              @ [CHR 0x22] @ ''\<newline>'' @ row_b @ ''\<newline>''"
  have r: "csv_reader (sniffed_dialect sniff_comma ?T) ?T
     = (REQUIRED_HEADERS
          # [ [''2+2=?'', ''1'', ''2'', ''3'', ''4'', ''C'', ''Basic math''],
             [''Capital of France?'', ''London'', ''Paris'', ''Rome'', ''Berlin'', ''b'', ''''] ],
        None)"
    by (simp add: sniff_comma_dialect header_line_def row_b_def REQUIRED_HEADERS_def
        comma_dialect_def reader_defs)
  have s: "strip ''Capital of France?'' = ''Capital of France?''" "strip ''London'' = ''London''"
    "strip ''Paris'' = ''Paris''" "strip ''Rome'' = ''Rome''" "strip ''Berlin'' = ''Berlin''"
    "strip ''b'' = ''b''" "strip '''' = ''''"
    by (simp_all add: strip_def py_isspace_def)
  have u: "upper ''b'' = [66]" by (simp add: upper_def py_upper_def)
  have e: "extract_row REQUIRED_HEADERS
      (DictReader_row REQUIRED_HEADERS
         [''Capital of France?'', ''London'', ''Paris'', ''Rome'', ''Berlin'', ''b'', ''''])
      = Inr (''Capital of France?'', [''London'', ''Paris'', ''Rome'', ''Berlin''], [66], [])"
    by (simp add: extract_row_REQUIRED s u)
  have q: "''Capital of France?'' \<noteq> []"
    "\<not> list_ex (\<lambda>opt. opt = []) [''London'', ''Paris'', ''Rome'', ''Berlin'']"
    "mapper [66] = Some 1"
    by (simp_all add: mapper_eq)
  note v = validate_row_accept [OF e q, of "Suc (Suc 0)"]
  show ?thesis
    unfolding process_csv_content_rows [OF r missing_REQUIRED_HEADERS]
    by (simp add: row_step_def v validate_row_C send_ok_def)
qed

section \<open>The extraction of a row\<close>

text \<open>
  Once no field is missing, the extraction of a row cannot raise: the \<open>except\<close> branch
  of the loop body is never taken.
\<close>

lemma get_from_row_Inr:
  assumes "k \<in> set (header_norms headers)"
  shows "\<exists>v. get_from_row headers row k = Inr v"
proof -
  from header_map_key [OF assms] obtain i where
    "header_map headers k = Some i" "i < length headers" by blast
  then show ?thesis by (simp add: get_from_row_def)
qed

lemma extract_row_Inr:
  assumes "missing headers = []"
  shows "\<exists>v. extract_row headers row = Inr v"
proof -
  have k: "normalize_header L \<in> set (header_norms headers)" if "L \<in> set REQUIRED_HEADERS" for L
    using assms that by (auto simp: missing_Nil_iff REQUIRED_NORMALS_map)
  have g: "\<exists>v. get_from_row headers row (normalize_header L) = Inr v"
    if "L \<in> set REQUIRED_HEADERS" for L
    using get_from_row_Inr [OF k [OF that] ] .
  obtain q where q: "get_from_row headers row (normalize_header ''Question'') = Inr q"
    using g [of "''Question''"] by (auto simp: REQUIRED_HEADERS_def)
  obtain a where a: "get_from_row headers row (normalize_header ''Option A'') = Inr a"
    using g [of "''Option A''"] by (auto simp: REQUIRED_HEADERS_def)
  obtain b where b: "get_from_row headers row (normalize_header ''Option B'') = Inr b"
    using g [of "''Option B''"] by (auto simp: REQUIRED_HEADERS_def)
  obtain c where c: "get_from_row headers row (normalize_header ''Option C'') = Inr c"
    using g [of "''Option C''"] by (auto simp: REQUIRED_HEADERS_def)
  obtain d where d: "get_from_row headers row (normalize_header ''Option D'') = Inr d"
    using g [of "''Option D''"] by (auto simp: REQUIRED_HEADERS_def)
  obtain ans where ans: "get_from_row headers row (normalize_header ''Answer'') = Inr ans"
    using g [of "''Answer''"] by (auto simp: REQUIRED_HEADERS_def)
  obtain e where e: "get_from_row headers row (normalize_header ''Description'') = Inr e"
    using g [of "''Description''"] by (auto simp: REQUIRED_HEADERS_def)
  show ?thesis by (simp add: extract_row_def and_then_def q a b c d ans e)
qed

lemma validate_row_no_parse_error:
  "missing headers = [] \<Longrightarrow> validate_row headers n row \<noteq> Inl (SkipParse n' e)"
  using extract_row_Inr [of headers row]
  by (auto simp: validate_row_def split: sum.splits prod.splits if_splits option.splits)

end
